theory Spec2Isabelle
  imports Main "HOL-Library.AList"
begin

section \<open>Data fetchers of \<open>pytorch_lightning/utilities/fetching.py\<close>\<close>

text \<open>
  A shallow embedding of the fetcher classes \<open>AbstractDataFetcher\<close>, \<open>DataFetcher\<close>,
  \<open>InterBatchParallelDataFetcher\<close>, \<open>StepFuncDataLoaderIter\<close> and
  \<open>DataLoaderIterDataFetcher\<close>. A fetcher object is a record; every method takes the
  object and returns the outcome of the call (\<open>Inl\<close> an exception, \<open>Inr\<close> the returned
  value) together with the object as the call leaves it, so that what a method has
  already mutated when it raises stays visible.
\<close>

subsection \<open>Exceptions\<close>

datatype error =
    MisconfigurationException
  | StopIteration
  | AssertionError
  | IndexError
  | KeyError
  | TypeError
  | AttributeError

subsection \<open>Progress tokens and the merged state\<close>

text \<open>
  \<open>IteratorState\<close> is imported from \<open>pytorch_lightning.utilities.auto_restart\<close>; the
  fetcher only reads its \<open>name\<close>. The remaining content of a token is kept as one opaque
  number.
\<close>

record IteratorState =
  name :: string
  position :: nat

text \<open>
  Modelled from the spec: \<open>MergedIteratorState\<close> (class of
  \<open>pytorch_lightning.utilities.auto_restart\<close>, not part of \<open>fetching.py\<close>) is "an ordered
  mapping from source name to its currently-applicable ProgressToken". The fetcher uses
  its constructor, \<open>len\<close> and \<open>update\<close>.
\<close>

type_synonym MergedIteratorState = "(string \<times> IteratorState) list"

definition MergedIteratorState_new :: MergedIteratorState where
  "MergedIteratorState_new = []"

definition MergedIteratorState_len :: "MergedIteratorState \<Rightarrow> nat" where
  "MergedIteratorState_len m = length m"

definition MergedIteratorState_update ::
  "string \<Rightarrow> IteratorState \<Rightarrow> MergedIteratorState \<Rightarrow> MergedIteratorState" where
  "MergedIteratorState_update iter_name new_state m = AList.update iter_name new_state m"

subsection \<open>Sources and their iterators\<close>

text \<open>
  The dataloader handed to \<open>setup\<close> is an iterable. \<open>teardown\<close> and \<open>_apply_patch\<close> test
  whether it is a \<open>DataLoader\<close> or a \<open>CombinedLoader\<close>; any other iterable is
  \<open>PlainIterable\<close>. Its content is a finite list that every \<open>iter\<close> replays from the
  start. Each element carries the batch and the progress tokens that the patched
  iterator reports for that pull.
\<close>

datatype loader_kind = DataLoader | CombinedLoader | PlainIterable

record 'a source =
  kind :: loader_kind
  content :: "('a \<times> IteratorState list) list"

type_synonym cache = "(string \<times> IteratorState list) list"

text \<open>
  An iterator over a source: the elements not pulled yet, whether
  \<open>patch_dataloader_iterator\<close> has been applied to it, and the three attributes that
  \<open>_store_dataloader_iter_state\<close> attaches to the iterator object (\<open>None\<close> while the
  attribute is not set).
\<close>

record 'a loader_iter =
  pending :: "('a \<times> IteratorState list) list"
  patched :: bool
  cache_states :: "cache option"
  state :: "MergedIteratorState option"
  previous_state :: "MergedIteratorState option"

definition iter_source :: "'a source \<Rightarrow> 'a loader_iter" where
  "iter_source src =
     \<lparr>pending = content src, patched = False, cache_states = None, state = None,
      previous_state = None\<rparr>"

subsection \<open>\<open>AbstractDataFetcher._store_dataloader_iter_state\<close>\<close>

text \<open>
  First loop: \<open>if iter_name not in cache_states: cache_states[iter_name] = []\<close>, then
  \<open>cache_states[iter_name].append(iter_state)\<close>.
\<close>

definition cache_append :: "IteratorState \<Rightarrow> cache \<Rightarrow> cache" where
  "cache_append iter_state cs =
     (case map_of cs (name iter_state) of
        None \<Rightarrow> AList.update (name iter_state) [iter_state] cs
      | Some l \<Rightarrow> AList.update (name iter_state) (l @ [iter_state]) cs)"

fun buffer_states :: "IteratorState list \<Rightarrow> cache \<Rightarrow> cache" where
  "buffer_states [] cs = cs"
| "buffer_states (t # ts) cs = buffer_states ts (cache_append t cs)"

text \<open>
  Second loop, run when \<open>self.fetched >= self.prefetch_batches\<close>. It works on the triple
  (\<open>cache_states\<close>, \<open>state\<close>, \<open>previous_state\<close>) of the iterator. \<open>pop(0)\<close> raises
  \<open>IndexError\<close> on an empty list and the subscript raises \<open>KeyError\<close> on a missing name.
\<close>

fun merge_states ::
  "IteratorState list \<Rightarrow> cache \<times> MergedIteratorState \<times> MergedIteratorState option \<Rightarrow>
   (error + unit) \<times> (cache \<times> MergedIteratorState \<times> MergedIteratorState option)" where
  "merge_states [] c = (Inr (), c)"
| "merge_states (t # ts) (cs, st, prev) =
     (let prev1 = (if MergedIteratorState_len st \<noteq> 0 then Some st else prev) in
      case map_of cs (name t) of
        None \<Rightarrow> (Inl KeyError, (cs, st, prev1))
      | Some [] \<Rightarrow> (Inl IndexError, (cs, st, prev1))
      | Some (x # xs) \<Rightarrow>
          merge_states ts
            (AList.update (name t) xs cs, MergedIteratorState_update (name t) x st, prev1))"

definition store_dataloader_iter_state ::
  "int \<Rightarrow> int \<Rightarrow> 'a loader_iter \<Rightarrow> IteratorState list \<Rightarrow> (error + unit) \<times> 'a loader_iter" where
  "store_dataloader_iter_state fetched_now prefetch dataloader_iter dataloader_iter_states =
     (let cs0 = (case cache_states dataloader_iter of None \<Rightarrow> [] | Some c \<Rightarrow> c);
          st0 = (case state dataloader_iter of None \<Rightarrow> MergedIteratorState_new | Some m \<Rightarrow> m);
          cs1 = buffer_states dataloader_iter_states cs0
      in if fetched_now \<ge> prefetch then
           (case merge_states dataloader_iter_states (cs1, st0, previous_state dataloader_iter) of
              (r, (cs2, st2, prev2)) \<Rightarrow>
                (r, dataloader_iter\<lparr>cache_states := Some cs2, state := Some st2,
                                     previous_state := prev2\<rparr>))
         else (Inr (), dataloader_iter\<lparr>cache_states := Some cs1, state := Some st0\<rparr>))"

text \<open>
  \<open>next(iterator)\<close>. Modelled from the spec: \<open>patch_dataloader_iterator\<close> (of
  \<open>auto_restart\<close>, not part of \<open>fetching.py\<close>) receives the fetcher in \<open>_apply_patch\<close>;
  "each child iterator, after being pulled from, may attach zero-or-more ProgressTokens
  retrievable by the core", which the patched iterator hands to
  \<open>_store_dataloader_iter_state\<close>. The iterator can only act inside \<open>next(iterator)\<close>,
  which \<open>_fetch_next_batch\<close> calls before \<open>self.fetched += 1\<close>, so the store reads the
  count of the pulls before the current one.
\<close>

definition iter_next ::
  "int \<Rightarrow> int \<Rightarrow> 'a loader_iter \<Rightarrow> (error + 'a) \<times> 'a loader_iter" where
  "iter_next fetched_now prefetch it =
     (case pending it of
        [] \<Rightarrow> (Inl StopIteration, it)
      | (batch, tokens) # rest \<Rightarrow>
          (let it1 = it\<lparr>pending := rest\<rparr> in
           if patched it then
             (case store_dataloader_iter_state fetched_now prefetch it1 tokens of
                (Inl e, it2) \<Rightarrow> (Inl e, it2)
              | (Inr _, it2) \<Rightarrow> (Inr batch, it2))
           else (Inr batch, it1)))"

subsection \<open>The fetcher object\<close>

datatype fetcher_class =
  DataFetcher | InterBatchParallelDataFetcher | DataLoaderIterDataFetcher

text \<open>
  A \<open>torch.cuda.Event\<close>: the objects are told apart by the order of their creation;
  \<open>record()\<close> sets \<open>recorded\<close>.
\<close>

record event =
  ev_id :: nat
  recorded :: bool

text \<open>Calls into collaborators that are outside \<open>fetching.py\<close>, kept as a trace.\<close>

datatype collaborator_call =
    Add_capture_metadata_collate
  | Attach_data_fetcher
  | Patch_dataloader_get_iterators
  | Patch_dataloader_iterator
  | CombinedLoader_reset
  | Shutdown_workers_and_reset_iterator
  | Teardown_dataloader_get_iterators

text \<open>
  The attributes of the three concrete classes in one record. \<open>dataloader_src\<close> is
  \<open>_dataloader\<close>, \<open>done_flag\<close> is \<open>done\<close>, \<open>iterator\<close> tells whether the
  \<open>StepFuncDataLoaderIter\<close> wrapper exists. \<open>fault_tolerant\<close> is the value of
  \<open>_fault_tolerant_training()\<close>. \<open>events_created\<close> counts the \<open>torch.cuda.Event()\<close>
  objects created so far, \<open>waited\<close> lists the events on which \<open>event.wait()\<close> has been
  called, \<open>calls\<close> lists the collaborator calls, all oldest first.
\<close>

record 'a fetcher =
  cls :: fetcher_class
  prefetch_batches :: int
  dataloader_src :: "'a source option"
  dataloader_iter :: "'a loader_iter option"
  fetched :: int
  done_flag :: bool
  store_on_device :: bool
  batch_to_device :: "'a \<Rightarrow> 'a"
  batches :: "'a list"
  events :: "event list"
  iterator :: bool
  fault_tolerant :: bool
  events_created :: nat
  waited :: "event list"
  calls :: "collaborator_call list"

subsection \<open>Constructors\<close>

definition no_op_batch_to_device :: "'a \<Rightarrow> 'a" where
  "no_op_batch_to_device batch = batch"

text \<open>
  \<open>AbstractDataFetcher.__init__\<close>. The class of the object under construction and the
  environment flag are parameters; attributes that the subclass constructors add later
  start with the values those constructors give them.
\<close>

definition AbstractDataFetcher_init ::
  "fetcher_class \<Rightarrow> bool \<Rightarrow> int \<Rightarrow> error + 'a fetcher" where
  "AbstractDataFetcher_init c ft prefetch =
     (if prefetch < 0 then Inl MisconfigurationException
      else Inr \<lparr>cls = c, prefetch_batches = prefetch, dataloader_src = None,
                dataloader_iter = None, fetched = 0, done_flag = False,
                store_on_device = False, batch_to_device = no_op_batch_to_device,
                batches = [], events = [], iterator = False, fault_tolerant = ft,
                events_created = 0, waited = [], calls = []\<rparr>)"

definition DataFetcher_init_as ::
  "fetcher_class \<Rightarrow> bool \<Rightarrow> int \<Rightarrow> bool \<Rightarrow> error + 'a fetcher" where
  "DataFetcher_init_as c ft prefetch on_device =
     (if prefetch < 1 then Inl MisconfigurationException
      else (case AbstractDataFetcher_init c ft prefetch of
              Inl e \<Rightarrow> Inl e
            | Inr s \<Rightarrow> Inr (s\<lparr>store_on_device := on_device,
                               batch_to_device := no_op_batch_to_device, batches := []\<rparr>)))"

definition DataFetcher_init :: "bool \<Rightarrow> int \<Rightarrow> bool \<Rightarrow> error + 'a fetcher" where
  "DataFetcher_init ft prefetch on_device = DataFetcher_init_as DataFetcher ft prefetch on_device"

definition InterBatchParallelDataFetcher_init ::
  "bool \<Rightarrow> int \<Rightarrow> bool \<Rightarrow> error + 'a fetcher" where
  "InterBatchParallelDataFetcher_init ft prefetch on_device =
     (case DataFetcher_init_as InterBatchParallelDataFetcher ft prefetch on_device of
        Inl e \<Rightarrow> Inl e
      | Inr s \<Rightarrow> Inr (s\<lparr>events := []\<rparr>))"

definition DataLoaderIterDataFetcher_init :: "bool \<Rightarrow> error + 'a fetcher" where
  "DataLoaderIterDataFetcher_init ft =
     (case AbstractDataFetcher_init DataLoaderIterDataFetcher ft 0 of
        Inl e \<Rightarrow> Inl e
      | Inr s \<Rightarrow> Inr (s\<lparr>store_on_device := False\<rparr>))"

subsection \<open>\<open>setup\<close>, \<open>reset\<close> and the hooks\<close>

text \<open>
  \<open>AbstractDataFetcher.setup\<close>: \<open>_add_capture_metadata_collate\<close> returns at once unless
  the dataloader is a \<open>DataLoader\<close> or a \<open>CombinedLoader\<close>.
\<close>

definition AbstractDataFetcher_setup :: "'a source \<Rightarrow> 'a fetcher \<Rightarrow> 'a fetcher" where
  "AbstractDataFetcher_setup dataloader s =
     (let s1 = (if kind dataloader = PlainIterable then s
                else s\<lparr>calls := calls s @ [Add_capture_metadata_collate]\<rparr>)
      in s1\<lparr>dataloader_src := Some dataloader\<rparr>)"

text \<open>\<open>DataFetcher.setup\<close>, with the optional \<open>batch_to_device\<close>.\<close>

definition DataFetcher_setup ::
  "'a source \<Rightarrow> ('a \<Rightarrow> 'a) option \<Rightarrow> 'a fetcher \<Rightarrow> 'a fetcher" where
  "DataFetcher_setup dataloader to_device s =
     (let s1 = AbstractDataFetcher_setup dataloader s in
      case to_device of None \<Rightarrow> s1 | Some f \<Rightarrow> s1\<lparr>batch_to_device := f\<rparr>)"

definition AbstractDataFetcher_reset :: "'a fetcher \<Rightarrow> 'a fetcher" where
  "AbstractDataFetcher_reset s = s\<lparr>fetched := 0, done_flag := False\<rparr>"

definition DataFetcher_reset :: "'a fetcher \<Rightarrow> 'a fetcher" where
  "DataFetcher_reset s = (AbstractDataFetcher_reset s)\<lparr>batches := []\<rparr>"

text \<open>\<open>self.reset()\<close>: \<open>InterBatchParallelDataFetcher\<close> inherits \<open>DataFetcher.reset\<close>.\<close>

definition reset :: "'a fetcher \<Rightarrow> 'a fetcher" where
  "reset s =
     (case cls s of
        DataFetcher \<Rightarrow> DataFetcher_reset s
      | InterBatchParallelDataFetcher \<Rightarrow> DataFetcher_reset s
      | DataLoaderIterDataFetcher \<Rightarrow> AbstractDataFetcher_reset s)"

text \<open>
  \<open>on_fetch_start\<close>: the overlap fetcher returns a new \<open>torch.cuda.Event()\<close>, the others
  return \<open>None\<close>.
\<close>

definition on_fetch_start :: "'a fetcher \<Rightarrow> event option \<times> 'a fetcher" where
  "on_fetch_start s =
     (case cls s of
        InterBatchParallelDataFetcher \<Rightarrow>
          (Some \<lparr>ev_id = events_created s, recorded = False\<rparr>,
           s\<lparr>events_created := events_created s + 1\<rparr>)
      | _ \<Rightarrow> (None, s))"

text \<open>
  \<open>on_fetch_end\<close>: \<open>DataFetcher\<close> appends the batch; the overlap fetcher appends the
  batch, records the event and appends it (\<open>None.record()\<close> would be an
  \<open>AttributeError\<close>); the base class does nothing.
\<close>

definition on_fetch_end ::
  "'a \<Rightarrow> event option \<Rightarrow> 'a fetcher \<Rightarrow> (error + unit) \<times> 'a fetcher" where
  "on_fetch_end batch start_output s =
     (case cls s of
        DataFetcher \<Rightarrow> (Inr (), s\<lparr>batches := batches s @ [batch]\<rparr>)
      | InterBatchParallelDataFetcher \<Rightarrow>
          (let s1 = s\<lparr>batches := batches s @ [batch]\<rparr> in
           case start_output of
             None \<Rightarrow> (Inl AttributeError, s1)
           | Some ev \<Rightarrow> (Inr (), s1\<lparr>events := events s1 @ [ev\<lparr>recorded := True\<rparr>]\<rparr>))
      | DataLoaderIterDataFetcher \<Rightarrow> (Inr (), s))"

text \<open>
  \<open>wait\<close>: the overlap fetcher pops the first event (\<open>IndexError\<close> on an empty list)
  and waits on it; the others do nothing.
\<close>

definition wait :: "'a fetcher \<Rightarrow> (error + unit) \<times> 'a fetcher" where
  "wait s =
     (case cls s of
        InterBatchParallelDataFetcher \<Rightarrow>
          (case events s of
             [] \<Rightarrow> (Inl IndexError, s)
           | ev # rest \<Rightarrow> (Inr (), s\<lparr>events := rest, waited := waited s @ [ev]\<rparr>))
      | _ \<Rightarrow> (Inr (), s))"

definition move_to_device :: "'a fetcher \<Rightarrow> 'a \<Rightarrow> 'a" where
  "move_to_device s batch = (if store_on_device s then batch_to_device s batch else batch)"

subsection \<open>\<open>DataFetcher\<close>: fetching\<close>

text \<open>
  \<open>_fetch_next_batch(self, iterator)\<close>, always called with \<open>self.dataloader_iter\<close>;
  \<open>next(None)\<close> is a \<open>TypeError\<close>.
\<close>

definition fetch_next_batch :: "'a fetcher \<Rightarrow> (error + unit) \<times> 'a fetcher" where
  "fetch_next_batch s =
     (case on_fetch_start s of
        (start_output, s1) \<Rightarrow>
          (case dataloader_iter s1 of
             None \<Rightarrow> (Inl TypeError, s1)
           | Some it \<Rightarrow>
               (case iter_next (fetched s1) (prefetch_batches s1) it of
                  (Inl e, it') \<Rightarrow> (Inl e, s1\<lparr>dataloader_iter := Some it'\<rparr>)
                | (Inr batch, it') \<Rightarrow>
                    on_fetch_end batch start_output
                      (s1\<lparr>dataloader_iter := Some it', fetched := fetched s1 + 1\<rparr>))))"

text \<open>The loop of \<open>DataFetcher.prefetching\<close>, with the number of rounds left.\<close>

fun prefetch_loop :: "nat \<Rightarrow> 'a fetcher \<Rightarrow> (error + unit) \<times> 'a fetcher" where
  "prefetch_loop 0 s = (Inr (), s)"
| "prefetch_loop (Suc n) s =
     (case fetch_next_batch s of
        (Inl StopIteration, s') \<Rightarrow> (Inr (), s')
      | (Inl e, s') \<Rightarrow> (Inl e, s')
      | (Inr _, s') \<Rightarrow> prefetch_loop n s')"

definition DataFetcher_prefetching :: "'a fetcher \<Rightarrow> (error + unit) \<times> 'a fetcher" where
  "DataFetcher_prefetching s =
     (case dataloader_iter s of
        None \<Rightarrow> (Inl AssertionError, s)
      | Some _ \<Rightarrow> prefetch_loop (nat (prefetch_batches s)) s)"

definition DataFetcher_fetching_function ::
  "'a fetcher \<Rightarrow> (error + ('a \<times> bool)) \<times> 'a fetcher" where
  "DataFetcher_fetching_function s =
     (case batches s of
        [] \<Rightarrow> (Inl StopIteration, s)
      | batch # rest \<Rightarrow>
          (let s1 = s\<lparr>batches := rest\<rparr>;
               refill =
                 (if \<not> done_flag s1 then
                    (case dataloader_iter s1 of
                       None \<Rightarrow> (Inl AssertionError, s1)
                     | Some _ \<Rightarrow>
                         (case fetch_next_batch s1 of
                            (Inl StopIteration, s2) \<Rightarrow> (Inr (), s2\<lparr>done_flag := True\<rparr>)
                          | (Inl e, s2) \<Rightarrow> (Inl e, s2)
                          | (Inr _, s2) \<Rightarrow> (Inr (), s2)))
                  else (Inr (), s1))
           in case refill of
                (Inl e, s2) \<Rightarrow> (Inl e, s2)
              | (Inr _, s2) \<Rightarrow>
                  (case wait s2 of
                     (Inl e, s3) \<Rightarrow> (Inl e, s3)
                   | (Inr _, s3) \<Rightarrow> (Inr (move_to_device s3 batch, batches s3 = []), s3))))"

subsection \<open>\<open>StepFuncDataLoaderIter\<close> and \<open>DataLoaderIterDataFetcher\<close>\<close>

text \<open>
  \<open>StepFuncDataLoaderIter.__next__\<close> on the wrapper's two attributes, the iterator and
  the fetcher.
\<close>

definition StepFuncDataLoaderIter_next ::
  "'a loader_iter \<Rightarrow> 'a fetcher \<Rightarrow> (error + 'a) \<times> 'a loader_iter \<times> 'a fetcher" where
  "StepFuncDataLoaderIter_next it data_fetcher =
     (case iter_next (fetched data_fetcher) (prefetch_batches data_fetcher) it of
        (Inr data, it') \<Rightarrow> (Inr data, it', data_fetcher\<lparr>fetched := fetched data_fetcher + 1\<rparr>)
      | (Inl StopIteration, it') \<Rightarrow> (Inl StopIteration, it', data_fetcher\<lparr>done_flag := True\<rparr>)
      | (Inl e, it') \<Rightarrow> (Inl e, it', data_fetcher))"

text \<open>
  A pull of the consumer through the wrapper that \<open>fetching_function\<close> handed out. The
  wrapper's iterator is the object in \<open>dataloader_iter\<close> for as long as the pass lasts;
  the wrapper of a pass that \<open>teardown\<close> has ended is not described (the first case).
\<close>

definition wrapped_pull :: "'a fetcher \<Rightarrow> (error + 'a) \<times> 'a fetcher" where
  "wrapped_pull s =
     (case dataloader_iter s of
        None \<Rightarrow> (Inl TypeError, s)
      | Some it \<Rightarrow>
          (case StepFuncDataLoaderIter_next it s of
             (r, it', s') \<Rightarrow> (r, s'\<lparr>dataloader_iter := Some it'\<rparr>)))"

definition DataLoaderIterDataFetcher_prefetching ::
  "'a fetcher \<Rightarrow> (error + unit) \<times> 'a fetcher" where
  "DataLoaderIterDataFetcher_prefetching s =
     (case dataloader_iter s of
        None \<Rightarrow> (Inl AssertionError, s)
      | Some _ \<Rightarrow> (Inr (), s\<lparr>iterator := True\<rparr>))"

text \<open>The wrapper object that \<open>fetching_function\<close> returns, as a handle.\<close>

datatype wrapped_iterator = StepFuncDataLoaderIter

definition DataLoaderIterDataFetcher_fetching_function ::
  "'a fetcher \<Rightarrow> (error + (int \<times> (wrapped_iterator \<times> bool))) \<times> 'a fetcher" where
  "DataLoaderIterDataFetcher_fetching_function s =
     (if \<not> done_flag s then
        (if iterator s then (Inr (fetched s, (StepFuncDataLoaderIter, done_flag s)), s)
         else (Inl AttributeError, s))
      else (Inl StopIteration, s))"

subsection \<open>The iteration protocol and \<open>teardown\<close>\<close>

definition prefetching :: "'a fetcher \<Rightarrow> (error + unit) \<times> 'a fetcher" where
  "prefetching s =
     (case cls s of
        DataFetcher \<Rightarrow> DataFetcher_prefetching s
      | InterBatchParallelDataFetcher \<Rightarrow> DataFetcher_prefetching s
      | DataLoaderIterDataFetcher \<Rightarrow> DataLoaderIterDataFetcher_prefetching s)"

text \<open>
  \<open>_apply_patch\<close> for a single \<open>DataLoader\<close>. The children of a \<open>CombinedLoader\<close> are
  outside this model, its iterator is left unpatched.
\<close>

definition apply_patch :: "'a fetcher \<Rightarrow> (error + unit) \<times> 'a fetcher" where
  "apply_patch s =
     (case dataloader_src s of
        None \<Rightarrow> (Inl MisconfigurationException, s)
      | Some src \<Rightarrow>
          (case dataloader_iter s of
             None \<Rightarrow> (Inl MisconfigurationException, s)
           | Some it \<Rightarrow>
               (if kind src = DataLoader \<and> fault_tolerant s then
                  (Inr (), s\<lparr>dataloader_iter := Some (it\<lparr>patched := True\<rparr>),
                             calls := calls s @ [Patch_dataloader_iterator]\<rparr>)
                else (Inr (), s))))"

text \<open>
  \<open>__iter__\<close>. \<open>_attach_data_fetcher\<close> reads \<open>self.loaders\<close> and with it the property
  \<open>dataloader\<close>, which raises when \<open>setup\<close> has not run; it marks a single \<open>DataLoader\<close>
  under fault-tolerant training (the children of a \<open>CombinedLoader\<close> are outside this
  model). \<open>iter(self.dataloader)\<close> starts at the first batch of the source.
\<close>

definition fetcher_iter :: "'a fetcher \<Rightarrow> (error + unit) \<times> 'a fetcher" where
  "fetcher_iter s =
     (let s1 = reset s in
      case dataloader_src s1 of
        None \<Rightarrow> (Inl MisconfigurationException, s1)
      | Some src \<Rightarrow>
          (let s2 = (if kind src = DataLoader \<and> fault_tolerant s1
                     then s1\<lparr>calls := calls s1 @ [Attach_data_fetcher]\<rparr> else s1);
               s3 = s2\<lparr>calls := calls s2 @ [Patch_dataloader_get_iterators]\<rparr>;
               s4 = s3\<lparr>dataloader_iter := Some (iter_source src)\<rparr>
           in case apply_patch s4 of
                (Inl e, s5) \<Rightarrow> (Inl e, s5)
              | (Inr _, s5) \<Rightarrow> prefetching s5))"

definition teardown :: "'a fetcher \<Rightarrow> (error + unit) \<times> 'a fetcher" where
  "teardown s =
     (let s1 = reset s in
      case dataloader_src s1 of
        None \<Rightarrow> (Inl MisconfigurationException, s1)
      | Some src \<Rightarrow>
          (let s2 = (if kind src = CombinedLoader
                     then s1\<lparr>calls := calls s1 @ [CombinedLoader_reset]\<rparr> else s1);
               s3 = (if kind src = DataLoader
                     then s2\<lparr>calls := calls s2 @ [Shutdown_workers_and_reset_iterator]\<rparr>
                     else s2);
               s4 = s3\<lparr>dataloader_iter := None\<rparr>
           in (Inr (), s4\<lparr>calls := calls s4 @ [Teardown_dataloader_get_iterators]\<rparr>)))"


subsection \<open>The store never raises\<close>

definition cache_len :: "cache \<Rightarrow> string \<Rightarrow> nat" where
  "cache_len cs n = (case map_of cs n of None \<Rightarrow> 0 | Some l \<Rightarrow> length l)"

definition name_count :: "string \<Rightarrow> IteratorState list \<Rightarrow> nat" where
  "name_count n ts = length (filter (\<lambda>t. name t = n) ts)"

lemma cache_len_update:
  "cache_len (AList.update k v cs) n = (if n = k then length v else cache_len cs n)"
  by (simp add: cache_len_def update_conv')

lemma cache_len_append:
  "cache_len (cache_append t cs) n = cache_len cs n + (if name t = n then 1 else 0)"
  by (auto simp: cache_append_def cache_len_def update_conv' split: option.splits)

lemma cache_len_buffer:
  "cache_len (buffer_states ts cs) n = cache_len cs n + name_count n ts"
  by (induction ts arbitrary: cs) (auto simp: cache_len_append name_count_def)

lemma merge_states_ok:
  "(\<And>n. name_count n ts \<le> cache_len cs n) \<Longrightarrow> fst (merge_states ts (cs, st, prev)) = Inr ()"
proof (induction ts arbitrary: cs st prev)
  case Nil
  then show ?case by simp
next
  case (Cons t ts)
  from Cons.prems [of "name t"] have pos: "0 < cache_len cs (name t)"
    by (simp add: name_count_def)
  then obtain x xs where hit: "map_of cs (name t) = Some (x # xs)"
    by (cases "map_of cs (name t)"; cases "the (map_of cs (name t))")
       (auto simp: cache_len_def)
  have rest: "name_count n ts \<le> cache_len (AList.update (name t) xs cs) n" for n
    using Cons.prems [of n] hit
    by (cases "n = name t") (auto simp: name_count_def cache_len_def update_conv')
  show ?case
    using Cons.IH [OF rest] hit by (simp add: Let_def)
qed

lemma store_ok: "fst (store_dataloader_iter_state f p it ts) = Inr ()"
proof -
  have "fst (merge_states ts (buffer_states ts cs, st, prev)) = Inr ()" for cs st prev
    by (rule merge_states_ok) (simp add: cache_len_buffer)
  then show ?thesis
    by (auto simp: store_dataloader_iter_state_def Let_def split: prod.splits)
       (metis fst_conv)
qed

lemma store_frame:
  "pending (snd (store_dataloader_iter_state f p it ts)) = pending it"
  "patched (snd (store_dataloader_iter_state f p it ts)) = patched it"
  by (auto simp: store_dataloader_iter_state_def Let_def split: prod.splits)

lemma iter_next_empty: "pending it = [] \<Longrightarrow> iter_next f p it = (Inl StopIteration, it)"
  by (simp add: iter_next_def)

lemma iter_next_cons:
  assumes "pending it = (b, ts) # rest"
  shows "fst (iter_next f p it) = Inr b"
    and "pending (snd (iter_next f p it)) = rest"
    and "patched (snd (iter_next f p it)) = patched it"
proof -
  let ?r = "store_dataloader_iter_state f p (it\<lparr>pending := rest\<rparr>) ts"
  have "fst ?r = Inr ()" by (rule store_ok)
  moreover have "pending (snd ?r) = rest" "patched (snd ?r) = patched it"
    by (simp_all add: store_frame)
  ultimately show "fst (iter_next f p it) = Inr b"
    and "pending (snd (iter_next f p it)) = rest"
    and "patched (snd (iter_next f p it)) = patched it"
    using assms by (auto simp: iter_next_def Let_def split: prod.splits sum.splits)
qed

subsection \<open>One pull of \<open>_fetch_next_batch\<close>\<close>

definition pending_of :: "'a fetcher \<Rightarrow> ('a \<times> IteratorState list) list" where
  "pending_of s = (case dataloader_iter s of None \<Rightarrow> [] | Some it \<Rightarrow> pending it)"

definition msr :: "'a fetcher \<Rightarrow> nat" where
  "msr s = length (batches s) + length (pending_of s)"

lemma fetch_next_batch_stop:
  assumes "dataloader_iter s = Some it" "pending it = []"
  shows "fetch_next_batch s = (Inl StopIteration, snd (on_fetch_start s))"
proof -
  obtain so s1 where start: "on_fetch_start s = (so, s1)"
    by (cases "on_fetch_start s")
  then have it1: "dataloader_iter s1 = Some it"
    using assms by (auto simp: on_fetch_start_def split: fetcher_class.splits)
  then have "s1\<lparr>dataloader_iter := Some it\<rparr> = s1"
    by (metis fetcher.surjective fetcher.update_convs(4))
  then show ?thesis
    using assms start it1 by (simp add: fetch_next_batch_def iter_next_empty)
qed

lemma fetch_next_batch_pull_sync:
  assumes "cls s = DataFetcher" "dataloader_iter s = Some it" "pending it = (b, ts) # rest"
  shows "fetch_next_batch s =
           (Inr (), s\<lparr>dataloader_iter := Some (snd (iter_next (fetched s) (prefetch_batches s) it)),
                      fetched := fetched s + 1, batches := batches s @ [b]\<rparr>)"
  using assms iter_next_cons(1) [OF assms(3), of "fetched s" "prefetch_batches s"]
  by (auto simp: fetch_next_batch_def on_fetch_start_def on_fetch_end_def
           split: prod.splits sum.splits)

lemma fetch_next_batch_pull_overlap:
  assumes "cls s = InterBatchParallelDataFetcher" "dataloader_iter s = Some it"
    "pending it = (b, ts) # rest"
  shows "fetch_next_batch s =
           (Inr (), s\<lparr>events_created := events_created s + 1,
                      dataloader_iter := Some (snd (iter_next (fetched s) (prefetch_batches s) it)),
                      fetched := fetched s + 1, batches := batches s @ [b],
                      events := events s @ [\<lparr>ev_id = events_created s, recorded = True\<rparr>]\<rparr>)"
  using assms iter_next_cons(1) [OF assms(3), of "fetched s" "prefetch_batches s"]
  by (auto simp: fetch_next_batch_def on_fetch_start_def on_fetch_end_def Let_def
           split: prod.splits sum.splits)

subsection \<open>The consumer loop and its termination\<close>

lemma iter_next_tl: "pending (snd (iter_next f p it)) = tl (pending it)"
proof (cases "pending it")
  case Nil
  then show ?thesis by (simp add: iter_next_empty)
next
  case (Cons x rest)
  then show ?thesis by (cases x) (simp add: iter_next_cons(2))
qed

lemma iter_next_Inr_pending: "fst (iter_next f p it) = Inr b \<Longrightarrow> pending it \<noteq> []"
  by (auto simp: iter_next_empty)

lemma on_fetch_start_frame:
  "batches (snd (on_fetch_start s)) = batches s"
  "dataloader_iter (snd (on_fetch_start s)) = dataloader_iter s"
  by (auto simp: on_fetch_start_def split: fetcher_class.splits)

lemma on_fetch_end_msr:
  "length (batches (snd (on_fetch_end b so s))) \<le> Suc (length (batches s))"
  "dataloader_iter (snd (on_fetch_end b so s)) = dataloader_iter s"
  by (auto simp: on_fetch_end_def Let_def split: fetcher_class.splits option.splits)

lemma fetch_next_batch_msr: "msr (snd (fetch_next_batch s)) \<le> msr s"
proof -
  obtain so s1 where start: "on_fetch_start s = (so, s1)"
    by (cases "on_fetch_start s")
  have s1: "batches s1 = batches s" "dataloader_iter s1 = dataloader_iter s"
    using on_fetch_start_frame [of s] start by simp_all
  show ?thesis
  proof (cases "dataloader_iter s")
    case None
    then show ?thesis
      using start s1 by (simp add: fetch_next_batch_def msr_def pending_of_def)
  next
    case (Some it)
    obtain r it' where nxt: "iter_next (fetched s1) (prefetch_batches s1) it = (r, it')"
      by (cases "iter_next (fetched s1) (prefetch_batches s1) it")
    have tl: "pending it' = tl (pending it)"
      using iter_next_tl [of "fetched s1" "prefetch_batches s1" it] nxt by simp
    show ?thesis
    proof (cases r)
      case (Inl e)
      then show ?thesis
        using start s1 Some nxt tl
        by (simp add: fetch_next_batch_def msr_def pending_of_def)
    next
      case (Inr b)
      then have ne: "pending it \<noteq> []"
        using iter_next_Inr_pending [of "fetched s1" "prefetch_batches s1" it b] nxt by simp
      let ?s2 = "s1\<lparr>dataloader_iter := Some it', fetched := fetched s1 + 1\<rparr>"
      have "fetch_next_batch s = on_fetch_end b so ?s2"
        using start s1 Some nxt Inr by (simp add: fetch_next_batch_def)
      moreover have "length (batches (snd (on_fetch_end b so ?s2))) \<le> Suc (length (batches s))"
        using on_fetch_end_msr(1) [of b so ?s2] s1 by simp
      moreover have "dataloader_iter (snd (on_fetch_end b so ?s2)) = Some it'"
        using on_fetch_end_msr(2) [of b so ?s2] by simp
      ultimately show ?thesis
        using Some tl ne by (cases "pending it") (simp_all add: msr_def pending_of_def)
    qed
  qed
qed

lemma wait_msr: "msr (snd (wait s)) = msr s"
  by (auto simp: wait_def msr_def pending_of_def split: fetcher_class.splits list.splits)

lemma fetching_function_msr:
  assumes "fst (DataFetcher_fetching_function s) = Inr out"
  shows "msr (snd (DataFetcher_fetching_function s)) < msr s"
proof (cases "batches s")
  case Nil
  then show ?thesis using assms by (simp add: DataFetcher_fetching_function_def)
next
  case (Cons b bs)
  let ?s1 = "s\<lparr>batches := bs\<rparr>"
  have m1: "msr s = Suc (msr ?s1)"
    using Cons by (simp add: msr_def pending_of_def)
  have m2: "msr (snd (fetch_next_batch ?s1)) \<le> msr ?s1"
    by (rule fetch_next_batch_msr)
  obtain r s2 where f: "fetch_next_batch ?s1 = (r, s2)"
    by (cases "fetch_next_batch ?s1")
  have m3: "msr (s2\<lparr>done_flag := True\<rparr>) = msr s2"
    by (simp add: msr_def pending_of_def)
  have w: "msr (snd (wait t)) = msr t" for t :: "'a fetcher"
    by (rule wait_msr)
  show ?thesis
    using assms Cons m1 m2 f m3 w [of ?s1] w [of s2] w [of "s2\<lparr>done_flag := True\<rparr>"]
    by (auto simp: DataFetcher_fetching_function_def Let_def
             split: if_splits option.splits sum.splits error.splits prod.splits)
qed

function consume_all :: "'a fetcher \<Rightarrow> ('a \<times> bool) list \<times> error \<times> 'a fetcher" where
  "consume_all s =
     (case DataFetcher_fetching_function s of
        (Inl e, s') \<Rightarrow> ([], e, s')
      | (Inr out, s') \<Rightarrow>
          (case consume_all s' of (outs, e, s'') \<Rightarrow> (out # outs, e, s'')))"
  by pat_completeness auto
termination
proof (relation "measure msr")
  show "wf (measure msr)" by simp
next
  fix s :: "'a fetcher" and x1 x2 out
  assume "(x1, x2) = DataFetcher_fetching_function s" "x1 = Inr out"
  then show "(x2, s) \<in> measure msr"
    using fetching_function_msr [of s out] by (metis fst_conv snd_conv in_measure)
qed

subsection \<open>The consumer and the objects of the statements\<close>

text \<open>
  A pass of the consumer over a \<open>DataFetcher\<close> or an overlap fetcher, as a \<open>for\<close> loop
  runs it: \<open>__iter__\<close>, then \<open>__next__\<close> until it raises. The result lists the pairs that
  were returned, the exception that ended the pass and the fetcher as the pass leaves
  it.
\<close>

definition iterate :: "'a fetcher \<Rightarrow> ('a \<times> bool) list \<times> error \<times> 'a fetcher" where
  "iterate s =
     (case fetcher_iter s of
        (Inl e, s1) \<Rightarrow> ([], e, s1)
      | (Inr _, s1) \<Rightarrow> consume_all s1)"

text \<open>The fetcher after \<open>k\<close> calls of \<open>DataFetcher.fetching_function\<close>, whatever they return.\<close>

fun advance_n :: "nat \<Rightarrow> 'a fetcher \<Rightarrow> 'a fetcher" where
  "advance_n 0 s = s"
| "advance_n (Suc k) s = advance_n k (snd (DataFetcher_fetching_function s))"

text \<open>The fetcher after \<open>k\<close> pulls of the consumer through the wrapper.\<close>

fun pull_n :: "nat \<Rightarrow> 'a fetcher \<Rightarrow> 'a fetcher" where
  "pull_n 0 s = s"
| "pull_n (Suc k) s = pull_n k (snd (wrapped_pull s))"

text \<open>
  The sequence that the specification describes for a source: every batch in order,
  flagged \<open>False\<close>, but for the last one, flagged \<open>True\<close>.
\<close>

fun mark_last :: "'a list \<Rightarrow> ('a \<times> bool) list" where
  "mark_last [] = []"
| "mark_last [x] = [(x, True)]"
| "mark_last (x # y # ys) = (x, False) # mark_last (y # ys)"

text \<open>The event with creation index \<open>n\<close>, after \<open>record()\<close>.\<close>

definition fresh_event :: "nat \<Rightarrow> event" where
  "fresh_event n = \<lparr>ev_id = n, recorded = True\<rparr>"

text \<open>The progress tokens of a source, in the order of its batches.\<close>

definition tokens :: "'a source \<Rightarrow> IteratorState list" where
  "tokens src = concat (map snd (content src))"


subsection \<open>Example objects\<close>

text \<open>
  A source of three batches without tokens and one with a token per batch; fetchers of
  the three classes as their constructors and \<open>setup\<close> leave them; a \<open>DataFetcher\<close> of
  depth 2 after \<open>__iter__\<close> and one call of \<open>fetching_function\<close>; an overlap fetcher after
  \<open>__iter__\<close> alone.
\<close>

definition example_source :: "nat source" where
  "example_source = \<lparr>kind = PlainIterable, content = [(10, []), (20, []), (30, [])]\<rparr>"



definition example_DataFetcher :: "int \<Rightarrow> nat fetcher option" where
  "example_DataFetcher d =
     (case DataFetcher_init False d True of
        Inl e \<Rightarrow> None
      | Inr s \<Rightarrow> Some (DataFetcher_setup example_source None s))"

definition example_overlap :: "nat fetcher option" where
  "example_overlap =
     (case InterBatchParallelDataFetcher_init False 2 True of
        Inl e \<Rightarrow> None
      | Inr s \<Rightarrow> Some (DataFetcher_setup example_source None s))"

definition example_caller_driven :: "nat fetcher option" where
  "example_caller_driven =
     (case DataLoaderIterDataFetcher_init False of
        Inl e \<Rightarrow> None
      | Inr s \<Rightarrow> Some (AbstractDataFetcher_setup example_source s))"


definition example_mid_pass :: "nat fetcher option" where
  "example_mid_pass =
     (case example_DataFetcher 2 of
        None \<Rightarrow> None
      | Some s \<Rightarrow> Some (advance_n 1 (snd (fetcher_iter s))))"

definition example_abandoned :: "nat fetcher option" where
  "example_abandoned =
     (case example_overlap of
        None \<Rightarrow> None
      | Some s \<Rightarrow> Some (snd (fetcher_iter s)))"

subsection \<open>The cases of \<open>DataFetcher.fetching_function\<close>\<close>

lemma sync_done:
  assumes "cls s = DataFetcher" "batches s = b # bs" "done_flag s"
  shows "DataFetcher_fetching_function s = (Inr (move_to_device s b, bs = []), s\<lparr>batches := bs\<rparr>)"
  using assms by (simp add: DataFetcher_fetching_function_def wait_def move_to_device_def)

lemma sync_exhaust:
  assumes "cls s = DataFetcher" "batches s = b # bs" "\<not> done_flag s"
    "dataloader_iter s = Some it" "pending it = []"
  shows "DataFetcher_fetching_function s =
           (Inr (move_to_device s b, bs = []), s\<lparr>batches := bs, done_flag := True\<rparr>)"
proof -
  have "fetch_next_batch (s\<lparr>batches := bs\<rparr>) = (Inl StopIteration, s\<lparr>batches := bs\<rparr>)"
    using assms fetch_next_batch_stop [of "s\<lparr>batches := bs\<rparr>" it]
    by (simp add: on_fetch_start_def)
  then show ?thesis
    using assms by (simp add: DataFetcher_fetching_function_def wait_def move_to_device_def)
qed

lemma sync_refill:
  assumes "cls s = DataFetcher" "batches s = b # bs" "\<not> done_flag s"
    "dataloader_iter s = Some it" "pending it = (p, ts) # rest"
  shows "DataFetcher_fetching_function s =
           (Inr (move_to_device s b, False),
            s\<lparr>batches := bs @ [p],
              dataloader_iter := Some (snd (iter_next (fetched s) (prefetch_batches s) it)),
              fetched := fetched s + 1\<rparr>)"
proof -
  have "fetch_next_batch (s\<lparr>batches := bs\<rparr>) =
          (Inr (), s\<lparr>batches := bs,
                     dataloader_iter := Some (snd (iter_next (fetched s) (prefetch_batches s) it)),
                     fetched := fetched s + 1, batches := bs @ [p]\<rparr>)"
    using assms fetch_next_batch_pull_sync [of "s\<lparr>batches := bs\<rparr>" it p ts rest] by simp
  then show ?thesis
    using assms by (simp add: DataFetcher_fetching_function_def wait_def move_to_device_def)
qed

lemma overlap_done:
  assumes "cls s = InterBatchParallelDataFetcher" "batches s = b # bs" "done_flag s"
    "events s = e # es"
  shows "DataFetcher_fetching_function s =
           (Inr (move_to_device s b, bs = []),
            s\<lparr>batches := bs, events := es, waited := waited s @ [e]\<rparr>)"
  using assms by (simp add: DataFetcher_fetching_function_def wait_def move_to_device_def)

lemma overlap_exhaust:
  assumes "cls s = InterBatchParallelDataFetcher" "batches s = b # bs" "\<not> done_flag s"
    "dataloader_iter s = Some it" "pending it = []" "events s = e # es"
  shows "DataFetcher_fetching_function s =
           (Inr (move_to_device s b, bs = []),
            s\<lparr>batches := bs, events_created := events_created s + 1, done_flag := True,
              events := es, waited := waited s @ [e]\<rparr>)"
proof -
  have "fetch_next_batch (s\<lparr>batches := bs\<rparr>) =
          (Inl StopIteration, s\<lparr>batches := bs, events_created := events_created s + 1\<rparr>)"
    using assms fetch_next_batch_stop [of "s\<lparr>batches := bs\<rparr>" it]
    by (simp add: on_fetch_start_def)
  then show ?thesis
    using assms by (simp add: DataFetcher_fetching_function_def wait_def move_to_device_def)
qed

lemma overlap_refill:
  assumes "cls s = InterBatchParallelDataFetcher" "batches s = b # bs" "\<not> done_flag s"
    "dataloader_iter s = Some it" "pending it = (p, ts) # rest" "events s = e # es"
  shows "DataFetcher_fetching_function s =
           (Inr (move_to_device s b, False),
            s\<lparr>events_created := events_created s + 1,
              dataloader_iter := Some (snd (iter_next (fetched s) (prefetch_batches s) it)),
              fetched := fetched s + 1, batches := bs @ [p],
              events := es @ [fresh_event (events_created s)],
              waited := waited s @ [e]\<rparr>)"
proof -
  have "fetch_next_batch (s\<lparr>batches := bs\<rparr>) =
          (Inr (), s\<lparr>batches := bs, events_created := events_created s + 1,
                     dataloader_iter := Some (snd (iter_next (fetched s) (prefetch_batches s) it)),
                     fetched := fetched s + 1, batches := bs @ [p],
                     events := events s @ [\<lparr>ev_id = events_created s, recorded = True\<rparr>]\<rparr>)"
    using assms fetch_next_batch_pull_overlap [of "s\<lparr>batches := bs\<rparr>" it p ts rest] by simp
  then show ?thesis
    using assms
    by (simp add: DataFetcher_fetching_function_def wait_def move_to_device_def fresh_event_def)
qed

subsection \<open>One call of \<open>fetching_function\<close> on a fetcher in mid-pass\<close>

definition static ::
  "'a fetcher \<Rightarrow>
   fetcher_class \<times> int \<times> bool \<times> ('a \<Rightarrow> 'a) \<times> 'a source option \<times> bool" where
  "static s =
     (cls s, prefetch_batches s, store_on_device s, batch_to_device s, dataloader_src s,
      fault_tolerant s)"

definition ready :: "'a fetcher \<Rightarrow> bool" where
  "ready s \<longleftrightarrow>
     (cls s = DataFetcher \<or>
      cls s = InterBatchParallelDataFetcher \<and> length (events s) = length (batches s)) \<and>
     dataloader_iter s \<noteq> None \<and>
     (pending_of s = [] \<or> batches s \<noteq> [] \<and> \<not> done_flag s)"

lemma move_to_device_static: "static s' = static s \<Longrightarrow> move_to_device s' = move_to_device s"
  by (auto simp: static_def move_to_device_def fun_eq_iff)

lemma advance_step:
  assumes "ready s" "batches s = b # bs"
  defines "s' \<equiv> snd (DataFetcher_fetching_function s)"
  shows "fst (DataFetcher_fetching_function s) =
           Inr (move_to_device s b, bs = [] \<and> pending_of s = [])"
    and "batches s' = bs @ map fst (take 1 (pending_of s))"
    and "pending_of s' = drop 1 (pending_of s)"
    and "done_flag s' = (done_flag s \<or> pending_of s = [])"
    and "static s' = static s"
    and "ready s'"
    and "waited s' =
           waited s @ (if cls s = InterBatchParallelDataFetcher then take 1 (events s) else [])"
    and "events s' =
           (if cls s = InterBatchParallelDataFetcher
            then drop 1 (events s) @
                 (if pending_of s = [] then [] else [fresh_event (events_created s)])
            else events s)"
    and "events_created s' =
           (if cls s = InterBatchParallelDataFetcher \<and> \<not> done_flag s
            then events_created s + 1 else events_created s)"
    and "fetched s' = (if pending_of s = [] then fetched s else fetched s + 1)"
proof -
  obtain it where it: "dataloader_iter s = Some it"
    using assms(1) by (auto simp: ready_def)
  have pend: "pending_of s = pending it"
    using it by (simp add: pending_of_def)
  have next_pending:
    "pending (snd (iter_next (fetched s) (prefetch_batches s) it)) = tl (pending it)"
    by (rule iter_next_tl)
  consider
      (sd) "cls s = DataFetcher" "done_flag s" "pending it = []"
    | (se) "cls s = DataFetcher" "\<not> done_flag s" "pending it = []"
    | (sr) p ts rest where "cls s = DataFetcher" "\<not> done_flag s" "pending it = (p, ts) # rest"
    | (od) e es where "cls s = InterBatchParallelDataFetcher" "done_flag s" "pending it = []"
        "events s = e # es" "length es = length bs"
    | (oe) e es where "cls s = InterBatchParallelDataFetcher" "\<not> done_flag s"
        "pending it = []" "events s = e # es" "length es = length bs"
    | (or) p ts rest e es where "cls s = InterBatchParallelDataFetcher" "\<not> done_flag s"
        "pending it = (p, ts) # rest" "events s = e # es" "length es = length bs"
  proof -
    have ev: "cls s = InterBatchParallelDataFetcher \<Longrightarrow>
               \<exists>e es. events s = e # es \<and> length es = length bs"
      using assms(1,2) by (cases "events s") (auto simp: ready_def)
    have dn: "done_flag s \<Longrightarrow> pending it = []"
      using assms(1) pend by (auto simp: ready_def)
    have c: "cls s = DataFetcher \<or> cls s = InterBatchParallelDataFetcher"
      using assms(1) by (auto simp: ready_def)
    show ?thesis
    proof (cases "pending it")
      case Nil
      then show ?thesis using c ev dn sd se od oe by (cases "done_flag s") blast+
    next
      case (Cons x rest)
      then obtain p ts where "pending it = (p, ts) # rest" by (cases x) simp
      then show ?thesis using c ev dn sr or by (cases "done_flag s") (simp, blast)
    qed
  qed
  then have all:
    "fst (DataFetcher_fetching_function s) =
           Inr (move_to_device s b, bs = [] \<and> pending_of s = []) \<and>
     batches s' = bs @ map fst (take 1 (pending_of s)) \<and>
     pending_of s' = drop 1 (pending_of s) \<and>
     done_flag s' = (done_flag s \<or> pending_of s = []) \<and>
     static s' = static s \<and>
     ready s' \<and>
     waited s' =
           waited s @ (if cls s = InterBatchParallelDataFetcher then take 1 (events s) else []) \<and>
     events s' =
           (if cls s = InterBatchParallelDataFetcher
            then drop 1 (events s) @
                 (if pending_of s = [] then [] else [fresh_event (events_created s)])
            else events s) \<and>
     events_created s' =
           (if cls s = InterBatchParallelDataFetcher \<and> \<not> done_flag s
            then events_created s + 1 else events_created s) \<and>
     fetched s' = (if pending_of s = [] then fetched s else fetched s + 1)"
  proof cases
    case sd
    then show ?thesis
      using sync_done [OF sd(1) assms(2) sd(2)] it pend
      by (simp add: s'_def static_def ready_def pending_of_def)
  next
    case se
    then show ?thesis
      using sync_exhaust [OF se(1) assms(2) se(2) it se(3)] it pend
      by (simp add: s'_def static_def ready_def pending_of_def)
  next
    case sr
    then show ?thesis
      using sync_refill [OF sr(1) assms(2) sr(2) it sr(3)] it pend next_pending
      by (simp add: s'_def static_def ready_def pending_of_def)
  next
    case od
    then show ?thesis
      using overlap_done [OF od(1) assms(2) od(2) od(4)] it pend
      by (simp add: s'_def static_def ready_def pending_of_def)
  next
    case oe
    then show ?thesis
      using overlap_exhaust [OF oe(1) assms(2) oe(2) it oe(3) oe(4)] it pend
      by (simp add: s'_def static_def ready_def pending_of_def)
  next
    case or
    then show ?thesis
      using overlap_refill [OF or(1) assms(2) or(2) it or(3) or(4)] it pend next_pending
      by (simp add: s'_def static_def ready_def pending_of_def)
  qed
  show "fst (DataFetcher_fetching_function s) =
           Inr (move_to_device s b, bs = [] \<and> pending_of s = [])"
    and "batches s' = bs @ map fst (take 1 (pending_of s))"
    and "pending_of s' = drop 1 (pending_of s)"
    and "done_flag s' = (done_flag s \<or> pending_of s = [])"
    and "static s' = static s"
    and "ready s'"
    and "waited s' =
           waited s @ (if cls s = InterBatchParallelDataFetcher then take 1 (events s) else [])"
    and "events s' =
           (if cls s = InterBatchParallelDataFetcher
            then drop 1 (events s) @
                 (if pending_of s = [] then [] else [fresh_event (events_created s)])
            else events s)"
    and "events_created s' =
           (if cls s = InterBatchParallelDataFetcher \<and> \<not> done_flag s
            then events_created s + 1 else events_created s)"
    and "fetched s' = (if pending_of s = [] then fetched s else fetched s + 1)"
    using all by blast+
qed

lemma advance_empty:
  "batches s = [] \<Longrightarrow> DataFetcher_fetching_function s = (Inl StopIteration, s)"
  by (simp add: DataFetcher_fetching_function_def)

subsection \<open>What the consumer loop yields\<close>

lemma mark_last_Cons: "mark_last (x # xs) = (x, xs = []) # mark_last xs"
  by (cases xs) simp_all

declare consume_all.simps [simp del]

lemma consume_all_outputs:
  "ready s \<Longrightarrow>
   fst (consume_all s) = mark_last (map (move_to_device s) (batches s @ map fst (pending_of s))) \<and>
   fst (snd (consume_all s)) = StopIteration"
proof (induction s rule: consume_all.induct)
  case (1 s)
  show ?case
  proof (cases "batches s")
    case Nil
    moreover have "pending_of s = []"
      using "1.prems" Nil by (auto simp: ready_def)
    ultimately show ?thesis
      by (simp add: consume_all.simps [of s] advance_empty)
  next
    case (Cons b bs)
    obtain r s' where step: "DataFetcher_fetching_function s = (r, s')"
      by (cases "DataFetcher_fetching_function s")
    have s'_eq: "snd (DataFetcher_fetching_function s) = s'"
      using step by simp
    note st = advance_step [OF "1.prems" Cons, unfolded s'_eq]
    have r: "r = Inr (move_to_device s b, bs = [] \<and> pending_of s = [])"
      using st(1) step by simp
    have ih: "fst (consume_all s') =
                mark_last (map (move_to_device s') (batches s' @ map fst (pending_of s'))) \<and>
              fst (snd (consume_all s')) = StopIteration"
      using "1.IH" [OF step [symmetric] r] st(6) by blast
    have same: "batches s' @ map fst (pending_of s') = bs @ map fst (pending_of s)"
      using st(2,3) by (cases "pending_of s") simp_all
    have mv: "move_to_device s' = move_to_device s"
      using st(5) by (rule move_to_device_static)
    show ?thesis
      using ih same mv Cons step r
      by (auto simp: consume_all.simps [of s] mark_last_Cons split: prod.splits)
  qed
qed

subsection \<open>The prefetching loop\<close>

lemma fetch_pull_view:
  assumes c: "cls s = DataFetcher \<or> cls s = InterBatchParallelDataFetcher"
    and it: "dataloader_iter s = Some it" and pend: "pending it = (p, ts) # rest"
  defines "s' \<equiv> snd (fetch_next_batch s)"
  shows "fst (fetch_next_batch s) = Inr () \<and>
         batches s' = batches s @ [p] \<and> pending_of s' = rest \<and> dataloader_iter s' \<noteq> None \<and>
         done_flag s' = done_flag s \<and> static s' = static s \<and> waited s' = waited s \<and>
         events s' = events s @ (if cls s = InterBatchParallelDataFetcher
                                 then [fresh_event (events_created s)] else []) \<and>
         events_created s' = events_created s +
                             (if cls s = InterBatchParallelDataFetcher then 1 else 0) \<and>
         fetched s' = fetched s + 1"
proof -
  have nxt: "pending (snd (iter_next (fetched s) (prefetch_batches s) it)) = rest"
    using pend by (simp add: iter_next_tl)
  from c show ?thesis
  proof
    assume d: "cls s = DataFetcher"
    show ?thesis
      using fetch_next_batch_pull_sync [OF d it pend] d nxt
      by (simp add: s'_def static_def pending_of_def)
  next
    assume o: "cls s = InterBatchParallelDataFetcher"
    show ?thesis
      using fetch_next_batch_pull_overlap [OF o it pend] o nxt
      by (simp add: s'_def static_def pending_of_def fresh_event_def)
  qed
qed

lemma fetch_stop_view:
  assumes it: "dataloader_iter s = Some it" and pend: "pending it = []"
  defines "s' \<equiv> snd (fetch_next_batch s)"
  shows "fst (fetch_next_batch s) = Inl StopIteration \<and>
         batches s' = batches s \<and> pending_of s' = [] \<and> dataloader_iter s' \<noteq> None \<and>
         done_flag s' = done_flag s \<and> static s' = static s \<and> waited s' = waited s \<and>
         events s' = events s \<and> fetched s' = fetched s"
  using fetch_next_batch_stop [OF it pend] it pend
  by (auto simp: s'_def static_def pending_of_def on_fetch_start_def split: fetcher_class.splits)

lemma prefetch_loop_view:
  assumes "cls s = DataFetcher \<or> cls s = InterBatchParallelDataFetcher"
    and "dataloader_iter s \<noteq> None"
  shows "fst (prefetch_loop n s) = Inr () \<and>
         batches (snd (prefetch_loop n s)) = batches s @ map fst (take n (pending_of s)) \<and>
         pending_of (snd (prefetch_loop n s)) = drop n (pending_of s) \<and>
         dataloader_iter (snd (prefetch_loop n s)) \<noteq> None \<and>
         done_flag (snd (prefetch_loop n s)) = done_flag s \<and>
         static (snd (prefetch_loop n s)) = static s \<and>
         waited (snd (prefetch_loop n s)) = waited s \<and>
         events (snd (prefetch_loop n s)) =
           events s @ (if cls s = InterBatchParallelDataFetcher
                       then map fresh_event
                              [events_created s ..<
                               events_created s + min n (length (pending_of s))]
                       else []) \<and>
         (n \<le> length (pending_of s) \<longrightarrow>
            events_created (snd (prefetch_loop n s)) =
              events_created s + (if cls s = InterBatchParallelDataFetcher then n else 0)) \<and>
         fetched (snd (prefetch_loop n s)) = fetched s + int (min n (length (pending_of s)))"
  using assms
proof (induction n arbitrary: s)
  case 0
  then show ?case by simp
next
  case (Suc n)
  obtain it where it: "dataloader_iter s = Some it"
    using Suc.prems(2) by auto
  have pof: "pending_of s = pending it"
    using it by (simp add: pending_of_def)
  show ?case
  proof (cases "pending it")
    case Nil
    obtain r s1 where f: "fetch_next_batch s = (r, s1)"
      by (cases "fetch_next_batch s")
    then show ?thesis
      using fetch_stop_view [OF it Nil] pof Nil by simp
  next
    case (Cons x rest)
    obtain p ts where x: "x = (p, ts)" by (cases x)
    obtain r s1 where f: "fetch_next_batch s = (r, s1)"
      by (cases "fetch_next_batch s")
    have v: "r = Inr () \<and>
         batches s1 = batches s @ [p] \<and> pending_of s1 = rest \<and> dataloader_iter s1 \<noteq> None \<and>
         done_flag s1 = done_flag s \<and> static s1 = static s \<and> waited s1 = waited s \<and>
         events s1 = events s @ (if cls s = InterBatchParallelDataFetcher
                                 then [fresh_event (events_created s)] else []) \<and>
         events_created s1 = events_created s +
                             (if cls s = InterBatchParallelDataFetcher then 1 else 0) \<and>
         fetched s1 = fetched s + 1"
      using fetch_pull_view [OF Suc.prems(1) it Cons [unfolded x]] f by simp
    have c1: "cls s1 = cls s"
      using v by (simp add: static_def)
    have loop: "prefetch_loop (Suc n) s = prefetch_loop n s1"
      using f v by simp
    have ih: "fst (prefetch_loop n s1) = Inr () \<and>
         batches (snd (prefetch_loop n s1)) = batches s1 @ map fst (take n (pending_of s1)) \<and>
         pending_of (snd (prefetch_loop n s1)) = drop n (pending_of s1) \<and>
         dataloader_iter (snd (prefetch_loop n s1)) \<noteq> None \<and>
         done_flag (snd (prefetch_loop n s1)) = done_flag s1 \<and>
         static (snd (prefetch_loop n s1)) = static s1 \<and>
         waited (snd (prefetch_loop n s1)) = waited s1 \<and>
         events (snd (prefetch_loop n s1)) =
           events s1 @ (if cls s1 = InterBatchParallelDataFetcher
                       then map fresh_event
                              [events_created s1 ..<
                               events_created s1 + min n (length (pending_of s1))]
                       else []) \<and>
         (n \<le> length (pending_of s1) \<longrightarrow>
            events_created (snd (prefetch_loop n s1)) =
              events_created s1 + (if cls s1 = InterBatchParallelDataFetcher then n else 0)) \<and>
         fetched (snd (prefetch_loop n s1)) = fetched s1 + int (min n (length (pending_of s1)))"
      using Suc.IH [of s1] Suc.prems(1) c1 v by simp
    have upt: "[c ..< Suc (c + m)] = c # [Suc c ..< Suc (c + m)]" for c m :: nat
      by (simp add: upt_conv_Cons)
    show ?thesis
      unfolding loop using ih v c1 pof Cons x
      by (simp add: upt del: upt_Suc prefetch_loop.simps)
  qed
qed

subsection \<open>Entering a pass\<close>

lemma reset_frame:
  "dataloader_src (reset s) = dataloader_src s"
  "fault_tolerant (reset s) = fault_tolerant s"
  "static (reset s) = static s"
  "waited (reset s) = waited s"
  "events (reset s) = events s"
  "events_created (reset s) = events_created s"
  "fetched (reset s) = 0"
  "\<not> done_flag (reset s)"
  "iterator (reset s) = iterator s"
  "calls (reset s) = calls s"
  "batches (reset s) = (if cls s = DataLoaderIterDataFetcher then batches s else [])"
  by (cases "cls s";
      simp add: reset_def DataFetcher_reset_def AbstractDataFetcher_reset_def static_def)+

definition entered :: "'a source \<Rightarrow> 'a fetcher \<Rightarrow> 'a fetcher" where
  "entered src s =
     (reset s)\<lparr>dataloader_iter :=
                 Some ((iter_source src)\<lparr>patched := kind src = DataLoader \<and> fault_tolerant s\<rparr>),
               calls := calls s @
                 (if kind src = DataLoader \<and> fault_tolerant s then [Attach_data_fetcher] else []) @
                 [Patch_dataloader_get_iterators] @
                 (if kind src = DataLoader \<and> fault_tolerant s
                  then [Patch_dataloader_iterator] else [])\<rparr>"

lemma fetcher_iter_entered:
  assumes "dataloader_src s = Some src"
  shows "fetcher_iter s = prefetching (entered src s)"
proof -
  have unpatched: "(iter_source src)\<lparr>patched := False\<rparr> = iter_source src"
    by (simp add: iter_source_def)
  show ?thesis
    using assms unpatched
    apply (cases "kind src = DataLoader"; cases "fault_tolerant s")
       apply (simp_all add: fetcher_iter_def apply_patch_def entered_def reset_frame Let_def)
      apply (rule arg_cong [where f = prefetching], rule fetcher.equality, simp_all)+
    done
qed

lemma entered_frame:
  "batches (entered src s) = (if cls s = DataLoaderIterDataFetcher then batches s else [])"
  "dataloader_iter (entered src s) =
     Some ((iter_source src)\<lparr>patched := kind src = DataLoader \<and> fault_tolerant s\<rparr>)"
  "\<not> done_flag (entered src s)"
  "static (entered src s) = static s"
  "waited (entered src s) = waited s"
  "events (entered src s) = events s"
  "events_created (entered src s) = events_created s"
  "fetched (entered src s) = 0"
  "iterator (entered src s) = iterator s"
  "pending_of (entered src s) = content src"
  using reset_frame [of s]
  by (simp_all add: entered_def static_def pending_of_def iter_source_def)

subsection \<open>A whole pass\<close>

lemma fetcher_iter_view:
  assumes c: "cls s = DataFetcher \<or> cls s = InterBatchParallelDataFetcher"
    and src: "dataloader_src s = Some src"
  defines "s1 \<equiv> snd (fetcher_iter s)"
    and "d \<equiv> nat (prefetch_batches s)"
  shows "fst (fetcher_iter s) = Inr ()"
    and "batches s1 = map fst (take d (content src))"
    and "pending_of s1 = drop d (content src)"
    and "dataloader_iter s1 \<noteq> None"
    and "\<not> done_flag s1"
    and "static s1 = static s"
    and "waited s1 = waited s"
    and "events s1 =
           events s @ (if cls s = InterBatchParallelDataFetcher
                       then map fresh_event
                              [events_created s ..<
                               events_created s + min d (length (content src))]
                       else [])"
    and "d \<le> length (content src) \<Longrightarrow>
            events_created s1 =
              events_created s + (if cls s = InterBatchParallelDataFetcher then d else 0)"
    and "fetched s1 = int (min d (length (content src)))"
proof -
  let ?s5 = "entered src s"
  note e = entered_frame [of src s]
  have c5: "cls ?s5 = cls s" "prefetch_batches ?s5 = prefetch_batches s"
    using e(4) by (simp_all add: static_def)
  have c': "cls ?s5 = DataFetcher \<or> cls ?s5 = InterBatchParallelDataFetcher"
    using c c5 by simp
  have it5: "dataloader_iter ?s5 \<noteq> None"
    using e(2) by simp
  have pre: "fetcher_iter s = prefetch_loop d ?s5"
    using c c5 it5 fetcher_iter_entered [OF src]
    by (auto simp: prefetching_def DataFetcher_prefetching_def d_def)
  have b5: "batches ?s5 = []"
    using c e(1) by auto
  have all: "fst (fetcher_iter s) = Inr () \<and>
         batches s1 = map fst (take d (content src)) \<and>
         pending_of s1 = drop d (content src) \<and>
         dataloader_iter s1 \<noteq> None \<and> \<not> done_flag s1 \<and> static s1 = static s \<and>
         waited s1 = waited s \<and>
         events s1 =
           events s @ (if cls s = InterBatchParallelDataFetcher
                       then map fresh_event
                              [events_created s ..<
                               events_created s + min d (length (content src))]
                       else []) \<and>
         (d \<le> length (content src) \<longrightarrow>
            events_created s1 =
              events_created s + (if cls s = InterBatchParallelDataFetcher then d else 0)) \<and>
         fetched s1 = int (min d (length (content src)))"
    unfolding s1_def pre
    using prefetch_loop_view [OF c' it5, of d]
    by (simp add: c5 b5 e(3-10) cong: if_cong)
  show "fst (fetcher_iter s) = Inr ()"
    and "batches s1 = map fst (take d (content src))"
    and "pending_of s1 = drop d (content src)"
    and "dataloader_iter s1 \<noteq> None"
    and "\<not> done_flag s1"
    and "static s1 = static s"
    and "waited s1 = waited s"
    and "events s1 =
           events s @ (if cls s = InterBatchParallelDataFetcher
                       then map fresh_event
                              [events_created s ..<
                               events_created s + min d (length (content src))]
                       else [])"
    and "d \<le> length (content src) \<Longrightarrow>
            events_created s1 =
              events_created s + (if cls s = InterBatchParallelDataFetcher then d else 0)"
    and "fetched s1 = int (min d (length (content src)))"
    using all by blast+
qed

lemma fetcher_iter_ready:
  assumes c: "cls s = DataFetcher \<or> cls s = InterBatchParallelDataFetcher \<and> events s = []"
    and src: "dataloader_src s = Some src" and d: "1 \<le> prefetch_batches s"
  shows "ready (snd (fetcher_iter s))"
proof -
  let ?s1 = "snd (fetcher_iter s)"
  let ?d = "nat (prefetch_batches s)"
  have c': "cls s = DataFetcher \<or> cls s = InterBatchParallelDataFetcher"
    using c by blast
  note v = fetcher_iter_view [OF c' src]
  have cls1: "cls ?s1 = cls s"
    using v(6) by (simp add: static_def)
  have "0 < ?d"
    using d by simp
  then have ne: "drop ?d (content src) = [] \<or> take ?d (content src) \<noteq> []"
    by (cases "content src") auto
  have len: "cls s = InterBatchParallelDataFetcher \<Longrightarrow> length (events ?s1) = length (batches ?s1)"
    using c v(2,8) by auto
  show ?thesis
    unfolding ready_def using cls1 c' len v(2,3,4,5) ne by auto
qed

lemma iterate_outputs:
  assumes c: "cls s = DataFetcher \<or> cls s = InterBatchParallelDataFetcher \<and> events s = []"
    and src: "dataloader_src s = Some src" and d: "1 \<le> prefetch_batches s"
  shows "fst (iterate s) = mark_last (map (move_to_device s \<circ> fst) (content src))"
    and "fst (snd (iterate s)) = StopIteration"
proof -
  have c': "cls s = DataFetcher \<or> cls s = InterBatchParallelDataFetcher"
    using c by blast
  note v = fetcher_iter_view [OF c' src]
  let ?s1 = "snd (fetcher_iter s)"
  have it: "iterate s = consume_all ?s1"
    using v(1) by (cases "fetcher_iter s") (simp add: iterate_def)
  have mv: "move_to_device ?s1 = move_to_device s"
    using v(6) by (rule move_to_device_static)
  have all: "batches ?s1 @ map fst (pending_of ?s1) = map fst (content src)"
    unfolding v(2,3) by (simp add: take_map [symmetric] drop_map [symmetric])
  note out = consume_all_outputs [OF fetcher_iter_ready [OF c src d]]
  show "fst (iterate s) = mark_last (map (move_to_device s \<circ> fst) (content src))"
    using out all unfolding it mv by (simp add: map_append [symmetric] del: map_append)
  show "fst (snd (iterate s)) = StopIteration"
    using out unfolding it by simp
qed

lemma mark_last_fst: "map fst (mark_last xs) = xs"
  by (induction xs rule: mark_last.induct) simp_all

lemma mark_last_snd:
  "map snd (mark_last xs) = replicate (length xs - 1) False @ (if xs = [] then [] else [True])"
  by (induction xs rule: mark_last.induct) simp_all

lemma mark_last_length: "length (mark_last xs) = length xs"
  by (induction xs rule: mark_last.induct) simp_all

subsection \<open>The fetcher after a number of calls\<close>

lemma advance_n_Suc_end:
  "advance_n (Suc k) s = snd (DataFetcher_fetching_function (advance_n k s))"
  by (induction k arbitrary: s) simp_all

declare advance_n.simps(2) [simp del]

lemma window_slide:
  assumes "0 < d" "k < length xs"
  shows "tl (take d (drop k xs)) @ take 1 (drop (k + d) xs) = take d (drop (Suc k) xs)"
proof -
  obtain y ys where ys: "drop k xs = y # ys"
    using assms(2) by (cases "drop k xs") auto
  obtain d' where d': "d = Suc d'"
    using assms(1) by (cases d) auto
  have a: "drop (Suc k) xs = ys"
    using ys by (metis drop_Suc tl_drop list.sel(3))
  have b: "drop (k + d) xs = drop d' ys"
    using ys d' by (metis add.commute drop_Suc_Cons drop_drop)
  have "take d' ys @ take 1 (drop d' ys) = take (d' + 1) ys"
    by (simp only: take_add)
  then show ?thesis
    using ys a b d' by simp
qed

lemma advance_n_view:
  assumes c: "cls s = DataFetcher \<or> cls s = InterBatchParallelDataFetcher \<and> events s = []"
    and src: "dataloader_src s = Some src" and d: "1 \<le> prefetch_batches s"
  defines "D \<equiv> nat (prefetch_batches s)" and "L \<equiv> length (content src)"
  shows "ready (advance_n k (snd (fetcher_iter s))) \<and>
         static (advance_n k (snd (fetcher_iter s))) = static s \<and>
         batches (advance_n k (snd (fetcher_iter s))) = map fst (take D (drop k (content src))) \<and>
         pending_of (advance_n k (snd (fetcher_iter s))) = drop (k + D) (content src) \<and>
         done_flag (advance_n k (snd (fetcher_iter s))) = (0 < k \<and> 0 < L \<and> L < k + D) \<and>
         fetched (advance_n k (snd (fetcher_iter s))) = int (min L (k + D))"
proof (induction k)
  case 0
  have c': "cls s = DataFetcher \<or> cls s = InterBatchParallelDataFetcher"
    using c by blast
  note v = fetcher_iter_view [OF c' src]
  show ?case
    using fetcher_iter_ready [OF c src d] v(2,3,5,6,10)
    by (simp add: D_def L_def min.commute)
next
  case (Suc k)
  let ?t = "advance_n k (snd (fetcher_iter s))"
  let ?t' = "advance_n (Suc k) (snd (fetcher_iter s))"
  have t': "?t' = snd (DataFetcher_fetching_function ?t)"
    by (rule advance_n_Suc_end)
  have Dpos: "0 < D"
    using d by (simp add: D_def)
  from Suc.IH have rdy: "ready ?t" and stat: "static ?t = static s"
    and bat: "batches ?t = map fst (take D (drop k (content src)))"
    and pen: "pending_of ?t = drop (k + D) (content src)"
    and don: "done_flag ?t = (0 < k \<and> 0 < L \<and> L < k + D)"
    and fet: "fetched ?t = int (min L (k + D))"
    by blast+
  show ?case
  proof (cases "batches ?t")
    case Nil
    then have "take D (drop k (content src)) = []"
      using bat by simp
    then have Lk: "L \<le> k"
      using Dpos by (simp add: L_def)
    have same: "?t' = ?t"
      unfolding t' using Nil by (simp add: advance_empty)
    show ?thesis
      unfolding same using rdy stat bat pen don fet Lk Dpos
      by (auto simp: L_def)
  next
    case (Cons b bs)
    have "take D (drop k (content src)) \<noteq> []"
    proof
      assume "take D (drop k (content src)) = []"
      then have "batches ?t = []" using bat by simp
      then show False using Cons by simp
    qed
    then have kL: "k < L"
      by (cases "k < L") (simp_all add: L_def)
    note st = advance_step [OF rdy Cons, folded t']
    have bs: "bs = tl (map fst (take D (drop k (content src))))"
      using bat Cons by (metis list.sel(3))
    have ws: "tl (take D (drop k (content src))) @ take 1 (drop (k + D) (content src)) =
              take D (drop (Suc k) (content src))"
      using window_slide [OF Dpos, of k "content src"] kL by (simp add: L_def)
    have b': "batches ?t' = map fst (take D (drop (Suc k) (content src)))"
      unfolding st(2) bs pen ws [symmetric] by (simp add: map_tl)
    have p': "pending_of ?t' = drop (Suc k + D) (content src)"
      unfolding st(3) pen by simp
    have d': "done_flag ?t' = (0 < Suc k \<and> 0 < L \<and> L < Suc k + D)"
      unfolding st(4) pen don using kL by (auto simp: L_def)
    have f': "fetched ?t' = int (min L (Suc k + D))"
      unfolding st(10) pen fet by (auto simp: L_def)
    show ?thesis
      using st(5,6) stat b' p' d' f' by simp
  qed
qed

lemma advance_n_outcome:
  fixes k :: nat
  assumes c: "cls s = DataFetcher \<or> cls s = InterBatchParallelDataFetcher \<and> events s = []"
    and src: "dataloader_src s = Some src" and d: "1 \<le> prefetch_batches s"
  defines "t \<equiv> advance_n k (snd (fetcher_iter s))"
  shows "k < length (content src) \<Longrightarrow>
           fst (DataFetcher_fetching_function t) =
             Inr (move_to_device s (fst (content src ! k)), Suc k = length (content src))"
    and "length (content src) \<le> k \<Longrightarrow>
           DataFetcher_fetching_function t = (Inl StopIteration, t)"
proof -
  let ?D = "nat (prefetch_batches s)"
  note v = advance_n_view [OF c src d, of k, folded t_def]
  have Dpos: "0 < ?D"
    using d by simp
  from v have rdy: "ready t" and stat: "static t = static s"
    and bat: "batches t = map fst (take ?D (drop k (content src)))"
    and pen: "pending_of t = drop (k + ?D) (content src)"
    by blast+
  show "DataFetcher_fetching_function t = (Inl StopIteration, t)"
    if "length (content src) \<le> k"
    using that bat by (simp add: advance_empty)
  show "fst (DataFetcher_fetching_function t) =
          Inr (move_to_device s (fst (content src ! k)), Suc k = length (content src))"
    if kL: "k < length (content src)"
  proof -
    have split: "drop k (content src) = content src ! k # drop (Suc k) (content src)"
      using Cons_nth_drop_Suc [OF kL] by simp
    obtain d' where d': "?D = Suc d'"
      using Dpos by (cases ?D) auto
    let ?ys = "drop (Suc k) (content src)"
    have b: "batches t = fst (content src ! k) # map fst (take d' ?ys)"
      unfolding bat split d' by simp
    have p: "pending_of t = drop d' ?ys"
      unfolding pen d' by (simp add: add.commute)
    have "(take d' ?ys = [] \<and> drop d' ?ys = []) = (?ys = [])"
      by (cases d') auto
    then have last: "(map fst (take d' ?ys) = [] \<and> pending_of t = []) =
                     (Suc k = length (content src))"
      unfolding p using kL by auto
    have "fst (DataFetcher_fetching_function t) =
            Inr (move_to_device t (fst (content src ! k)),
                 map fst (take d' ?ys) = [] \<and> pending_of t = [])"
      by (rule advance_step(1) [OF rdy b])
    then show ?thesis
      unfolding last move_to_device_static [OF stat] .
  qed
qed

subsection \<open>Events and waits of the overlap fetcher\<close>


lemma upt_snoc: "a \<le> b \<Longrightarrow> [a ..< b] @ [b] = [a ..< Suc b]"
  by simp


subsection \<open>Pulls through the wrapper of the caller-driven fetcher\<close>

lemma pull_n_Suc_end: "pull_n (Suc k) s = snd (wrapped_pull (pull_n k s))"
  by (induction k arbitrary: s) simp_all

declare pull_n.simps(2) [simp del]

lemma wrapped_pull_some:
  assumes it: "dataloader_iter s = Some it" and pend: "pending it = (b, ts) # rest"
  defines "s' \<equiv> snd (wrapped_pull s)"
  shows "fst (wrapped_pull s) = Inr b \<and> fetched s' = fetched s + 1 \<and>
         done_flag s' = done_flag s \<and> pending_of s' = rest \<and> iterator s' = iterator s \<and>
         dataloader_iter s' \<noteq> None"
proof -
  obtain r it' where nxt: "iter_next (fetched s) (prefetch_batches s) it = (r, it')"
    by (cases "iter_next (fetched s) (prefetch_batches s) it")
  have r: "r = Inr b" and p: "pending it' = rest"
    using iter_next_cons(1,2) [OF pend, of "fetched s" "prefetch_batches s"] nxt by simp_all
  show ?thesis
    using it nxt r p
    by (simp add: s'_def wrapped_pull_def StepFuncDataLoaderIter_next_def pending_of_def)
qed

lemma wrapped_pull_stop:
  assumes it: "dataloader_iter s = Some it" and pend: "pending it = []"
  defines "s' \<equiv> snd (wrapped_pull s)"
  shows "fst (wrapped_pull s) = Inl StopIteration \<and> fetched s' = fetched s \<and>
         done_flag s' \<and> pending_of s' = [] \<and> iterator s' = iterator s \<and>
         dataloader_iter s' \<noteq> None"
  using it pend
  by (simp add: s'_def wrapped_pull_def StepFuncDataLoaderIter_next_def pending_of_def
        iter_next_empty)

lemma pull_n_view:
  assumes "dataloader_iter s \<noteq> None" and "k \<le> length (pending_of s)"
  shows "fetched (pull_n k s) = fetched s + int k \<and>
         done_flag (pull_n k s) = done_flag s \<and>
         pending_of (pull_n k s) = drop k (pending_of s) \<and>
         iterator (pull_n k s) = iterator s \<and>
         dataloader_iter (pull_n k s) \<noteq> None"
  using assms(2)
proof (induction k)
  case 0
  then show ?case using assms(1) by simp
next
  case (Suc k)
  let ?t = "pull_n k s"
  from Suc have ih: "fetched ?t = fetched s + int k" "done_flag ?t = done_flag s"
    "pending_of ?t = drop k (pending_of s)" "iterator ?t = iterator s"
    "dataloader_iter ?t \<noteq> None"
    by simp_all
  obtain it where it: "dataloader_iter ?t = Some it"
    using ih(5) by auto
  have "k < length (pending_of s)"
    using Suc.prems by simp
  then have split: "drop k (pending_of s) = pending_of s ! k # drop (Suc k) (pending_of s)"
    by (simp add: Cons_nth_drop_Suc)
  obtain b ts where x: "pending_of s ! k = (b, ts)"
    by (cases "pending_of s ! k")
  have pend: "pending it = (b, ts) # drop (Suc k) (pending_of s)"
    using ih(3) it split x by (simp add: pending_of_def)
  show ?case
    unfolding pull_n_Suc_end
    using wrapped_pull_some [OF it pend] ih by simp
qed

lemma caller_driven_iter:
  assumes c: "cls s = DataLoaderIterDataFetcher" and src: "dataloader_src s = Some src"
  defines "s1 \<equiv> snd (fetcher_iter s)"
  shows "fst (fetcher_iter s) = Inr ()" and "fetched s1 = 0" and "\<not> done_flag s1"
    and "pending_of s1 = content src" and "iterator s1" and "dataloader_iter s1 \<noteq> None"
proof -
  note e = entered_frame [of src s]
  have c5: "cls (entered src s) = DataLoaderIterDataFetcher"
    using e(4) c by (simp add: static_def)
  have run: "fetcher_iter s = (Inr (), (entered src s)\<lparr>iterator := True\<rparr>)"
    using fetcher_iter_entered [OF src] c5 e(2)
    by (simp add: prefetching_def DataLoaderIterDataFetcher_prefetching_def)
  show "fst (fetcher_iter s) = Inr ()" and "fetched s1 = 0" and "\<not> done_flag s1"
    and "pending_of s1 = content src" and "iterator s1" and "dataloader_iter s1 \<noteq> None"
    using e(2,3,8,10) by (simp_all add: s1_def run pending_of_def)
qed

subsection \<open>The store on tokens of a single name\<close>





subsection \<open>Tokens along the fetches\<close>








subsection \<open>The merged state along a pass\<close>







lemma example_DataFetcher_props:
  assumes "1 \<le> d"
  obtains s where "example_DataFetcher d = Some s" "cls s = DataFetcher"
    "prefetch_batches s = d" "dataloader_src s = Some example_source"
    "store_on_device s" "batch_to_device s = no_op_batch_to_device" "events s = []"
    "waited s = []" "events_created s = 0"
  using assms
  by (simp add: example_DataFetcher_def DataFetcher_init_def DataFetcher_init_as_def
        AbstractDataFetcher_init_def DataFetcher_setup_def AbstractDataFetcher_setup_def
        example_source_def)

section \<open>The claims\<close>

text \<open>
  C1. For every look-ahead depth of at least 1 and every finite source of length \<open>L\<close>,
  a pass over a \<open>DataFetcher\<close> (\<open>__iter__\<close>, then \<open>__next__\<close> until it raises) yields
  exactly \<open>L\<close> pairs before it raises \<open>StopIteration\<close>: the batches of the source in
  order, each moved to the device, with \<open>is_last\<close> false on all pairs but the final
  one, where it is true.
\<close>

theorem DataFetcher_pass_yields_all_and_flags_last:
  assumes "cls s = DataFetcher" and "1 \<le> prefetch_batches s"
    and "dataloader_src s = Some src"
  shows "fst (snd (iterate s)) = StopIteration \<and>
         length (fst (iterate s)) = length (content src) \<and>
         map fst (fst (iterate s)) = map (move_to_device s \<circ> fst) (content src) \<and>
         map snd (fst (iterate s)) =
           replicate (length (content src) - 1) False @
           (if content src = [] then [] else [True])"
proof -
  have c: "cls s = DataFetcher \<or> cls s = InterBatchParallelDataFetcher \<and> events s = []"
    using assms(1) by simp
  note out = iterate_outputs [OF c assms(3) assms(2)]
  show ?thesis
    unfolding out by (simp add: mark_last_fst mark_last_snd mark_last_length)
qed

theorem DataFetcher_pass_yields_all_and_flags_last_witness:
  "case example_DataFetcher 1 of
     None \<Rightarrow> False
   | Some s \<Rightarrow>
       fst (snd (iterate s)) = StopIteration \<and> length (fst (iterate s)) = 3 \<and>
       map fst (fst (iterate s)) = [10, 20, 30] \<and>
       map snd (fst (iterate s)) = [False, False, True]"
proof -
  obtain s where s: "example_DataFetcher 1 = Some s" "cls s = DataFetcher"
    "prefetch_batches s = 1" "dataloader_src s = Some example_source"
    "store_on_device s" "batch_to_device s = no_op_batch_to_device"
    using example_DataFetcher_props [of 1] by auto
  have d: "1 \<le> prefetch_batches s"
    using s(3) by simp
  show ?thesis
    using DataFetcher_pass_yields_all_and_flags_last [OF s(2) d s(4)] s(1,5,6)
    by (simp add: example_source_def move_to_device_def no_op_batch_to_device_def)
qed

text \<open>
  C4. For every finite source and any two look-ahead depths of at least 1, the pass
  over a \<open>DataFetcher\<close> yields the same sequence of (batch, is_last) pairs and then
  \<open>StopIteration\<close>, whatever the depth (the two fetchers agree in \<open>store_on_device\<close> and
  \<open>batch_to_device\<close>); for the source of three batches, depth 1 and depth 2 both
  yield the first two batches with \<open>False\<close> and the third with \<open>True\<close>.
\<close>

theorem DataFetcher_pass_independent_of_depth:
  assumes "cls s = DataFetcher" and "cls s' = DataFetcher"
    and "1 \<le> prefetch_batches s" and "1 \<le> prefetch_batches s'"
    and "dataloader_src s = Some src" and "dataloader_src s' = Some src"
    and "store_on_device s' = store_on_device s" and "batch_to_device s' = batch_to_device s"
  shows "fst (iterate s') = fst (iterate s) \<and>
         fst (snd (iterate s')) = StopIteration \<and> fst (snd (iterate s)) = StopIteration"
proof -
  have c: "cls s = DataFetcher \<or> cls s = InterBatchParallelDataFetcher \<and> events s = []"
    and c': "cls s' = DataFetcher \<or> cls s' = InterBatchParallelDataFetcher \<and> events s' = []"
    using assms(1,2) by simp_all
  have mv: "move_to_device s' = move_to_device s"
    using assms(7,8) by (simp add: move_to_device_def fun_eq_iff)
  show ?thesis
    unfolding iterate_outputs [OF c assms(5) assms(3)] iterate_outputs [OF c' assms(6) assms(4)] mv
    by simp
qed

theorem DataFetcher_pass_independent_of_depth_witness:
  "case (example_DataFetcher 1, example_DataFetcher 2) of
     (Some s, Some s') \<Rightarrow>
       prefetch_batches s = 1 \<and> prefetch_batches s' = 2 \<and>
       fst (iterate s') = fst (iterate s) \<and>
       fst (iterate s) = [(10, False), (20, False), (30, True)] \<and>
       fst (snd (iterate s')) = StopIteration \<and> fst (snd (iterate s)) = StopIteration
   | _ \<Rightarrow> False"
proof -
  obtain s where s: "example_DataFetcher 1 = Some s" "cls s = DataFetcher"
    "prefetch_batches s = 1" "dataloader_src s = Some example_source"
    "store_on_device s" "batch_to_device s = no_op_batch_to_device"
    using example_DataFetcher_props [of 1] by auto
  obtain s' where s': "example_DataFetcher 2 = Some s'" "cls s' = DataFetcher"
    "prefetch_batches s' = 2" "dataloader_src s' = Some example_source"
    "store_on_device s'" "batch_to_device s' = no_op_batch_to_device"
    using example_DataFetcher_props [of 2] by auto
  have d: "1 \<le> prefetch_batches s" "1 \<le> prefetch_batches s'"
    using s(3) s'(3) by simp_all
  have c: "cls s = DataFetcher \<or> cls s = InterBatchParallelDataFetcher \<and> events s = []"
    using s(2) by simp
  have first: "fst (iterate s) = [(10, False), (20, False), (30, True)]"
    unfolding iterate_outputs(1) [OF c s(4) d(1)] using s(5,6)
    by (simp add: example_source_def move_to_device_def no_op_batch_to_device_def)
  show ?thesis
    using DataFetcher_pass_independent_of_depth [OF s(2) s'(2) d s(4) s'(4)] s s' first
    by simp
qed

lemma example_overlap_props:
  obtains s where "example_overlap = Some s" "cls s = InterBatchParallelDataFetcher"
    "prefetch_batches s = 2" "dataloader_src s = Some example_source"
    "store_on_device s" "batch_to_device s = no_op_batch_to_device" "events s = []"
    "waited s = []" "events_created s = 0"
  by (simp add: example_overlap_def InterBatchParallelDataFetcher_init_def
        DataFetcher_init_as_def AbstractDataFetcher_init_def DataFetcher_setup_def
        AbstractDataFetcher_setup_def example_source_def)

lemma example_caller_driven_props:
  obtains s where "example_caller_driven = Some s" "cls s = DataLoaderIterDataFetcher"
    "dataloader_src s = Some example_source"
  by (simp add: example_caller_driven_def DataLoaderIterDataFetcher_init_def
        AbstractDataFetcher_init_def AbstractDataFetcher_setup_def example_source_def)





text \<open>
  C10. In overlap mode, in a pass that starts with an empty event list (as the
  constructor leaves it), after \<open>__iter__\<close> and after any number of calls of
  \<open>fetching_function\<close> the event list is as long as the batch buffer, and no call raises
  \<open>IndexError\<close>: \<open>wait\<close> never pops from an empty list.
\<close>

theorem overlap_events_match_batches:
  assumes "cls s = InterBatchParallelDataFetcher" and "events s = []"
    and "1 \<le> prefetch_batches s" and "dataloader_src s = Some src"
  shows "length (events (advance_n k (snd (fetcher_iter s)))) =
           length (batches (advance_n k (snd (fetcher_iter s)))) \<and>
         fst (DataFetcher_fetching_function (advance_n k (snd (fetcher_iter s)))) \<noteq>
           Inl IndexError"
proof -
  let ?t = "advance_n k (snd (fetcher_iter s))"
  have c: "cls s = DataFetcher \<or> cls s = InterBatchParallelDataFetcher \<and> events s = []"
    using assms(1,2) by simp
  note v = advance_n_view [OF c assms(4) assms(3), of k]
  have "cls ?t = InterBatchParallelDataFetcher"
    using v assms(1) by (simp add: static_def)
  moreover have "ready ?t"
    using v by blast
  ultimately have a: "length (events ?t) = length (batches ?t)"
    by (simp add: ready_def)
  have b: "fst (DataFetcher_fetching_function ?t) \<noteq> Inl IndexError"
    using advance_n_outcome [OF c assms(4) assms(3), of k]
    by (cases "k < length (content src)") simp_all
  show ?thesis
    using a b by simp
qed

theorem overlap_events_match_batches_witness:
  "case example_overlap of
     None \<Rightarrow> False
   | Some s \<Rightarrow>
       events s = [] \<and>
       length (events (snd (fetcher_iter s))) = length (batches (snd (fetcher_iter s))) \<and>
       length (batches (snd (fetcher_iter s))) = 2 \<and>
       length (events (advance_n 2 (snd (fetcher_iter s)))) =
         length (batches (advance_n 2 (snd (fetcher_iter s)))) \<and>
       fst (DataFetcher_fetching_function (advance_n 2 (snd (fetcher_iter s)))) \<noteq>
         Inl IndexError"
proof -
  obtain s where s: "example_overlap = Some s" "cls s = InterBatchParallelDataFetcher"
    "prefetch_batches s = 2" "dataloader_src s = Some example_source" "events s = []"
    using example_overlap_props by auto
  have d: "1 \<le> prefetch_batches s"
    using s(3) by simp
  have c: "cls s = DataFetcher \<or> cls s = InterBatchParallelDataFetcher"
    using s(2) by simp
  have two: "length (batches (snd (fetcher_iter s))) = 2"
    unfolding fetcher_iter_view(2) [OF c s(4)] using s(3) by (simp add: example_source_def)
  show ?thesis
    unfolding s(1)
    using overlap_events_match_batches [OF s(2) s(5) d s(4), of 0]
      overlap_events_match_batches [OF s(2) s(5) d s(4), of 2] s(5) two
    by simp
qed

text \<open>
  C6. In caller-driven mode, for a source of length \<open>L\<close>: after \<open>__iter__\<close> and \<open>k \<le> L\<close>
  pulls through the wrapper, \<open>done\<close> is false, \<open>fetched\<close> is \<open>k\<close> and \<open>fetching_function\<close>
  returns \<open>(fetched, (wrapper, done))\<close> without changing the fetcher; pull number
  \<open>k < L\<close> returns batch number \<open>k\<close>; the pull after the \<open>L\<close> successful ones raises
  \<open>StopIteration\<close>, leaves \<open>fetched\<close> at \<open>L\<close> and sets \<open>done\<close>, after which
  \<open>fetching_function\<close> raises \<open>StopIteration\<close>.
\<close>

theorem caller_driven_counts_pulls:
  assumes "cls s = DataLoaderIterDataFetcher" and "dataloader_src s = Some src"
  shows "fst (fetcher_iter s) = Inr () \<and>
         (k \<le> length (content src) \<longrightarrow>
            DataLoaderIterDataFetcher_fetching_function (pull_n k (snd (fetcher_iter s))) =
              (Inr (int k, (StepFuncDataLoaderIter, False)), pull_n k (snd (fetcher_iter s)))) \<and>
         (k < length (content src) \<longrightarrow>
            fst (wrapped_pull (pull_n k (snd (fetcher_iter s)))) = Inr (fst (content src ! k))) \<and>
         fst (wrapped_pull (pull_n (length (content src)) (snd (fetcher_iter s)))) =
           Inl StopIteration \<and>
         fetched (pull_n (Suc (length (content src))) (snd (fetcher_iter s))) =
           int (length (content src)) \<and>
         done_flag (pull_n (Suc (length (content src))) (snd (fetcher_iter s))) \<and>
         fst (DataLoaderIterDataFetcher_fetching_function
                (pull_n (Suc (length (content src))) (snd (fetcher_iter s)))) =
           Inl StopIteration"
proof -
  let ?L = "length (content src)"
  let ?s1 = "snd (fetcher_iter s)"
  note ci = caller_driven_iter [OF assms]
  have a: "DataLoaderIterDataFetcher_fetching_function (pull_n k ?s1) =
             (Inr (int k, (StepFuncDataLoaderIter, False)), pull_n k ?s1)"
    if "k \<le> ?L"
    using pull_n_view [OF ci(6), of k] that ci(2,3,4,5)
    by (simp add: DataLoaderIterDataFetcher_fetching_function_def)
  have b: "fst (wrapped_pull (pull_n k ?s1)) = Inr (fst (content src ! k))" if kL: "k < ?L"
  proof -
    note v = pull_n_view [OF ci(6), of k]
    have p: "pending_of (pull_n k ?s1) = drop k (content src)"
      using v kL ci(4) by simp
    obtain it where it: "dataloader_iter (pull_n k ?s1) = Some it"
      using v kL ci(4) by auto
    obtain b ts where x: "content src ! k = (b, ts)"
      by (cases "content src ! k")
    have "pending it = (b, ts) # drop (Suc k) (content src)"
      using p it x Cons_nth_drop_Suc [OF kL] by (simp add: pending_of_def)
    then show ?thesis
      using wrapped_pull_some [OF it] x by simp
  qed
  note pl = pull_n_view [OF ci(6), of ?L]
  obtain it where it: "dataloader_iter (pull_n ?L ?s1) = Some it"
    using pl ci(4) by auto
  have pe: "pending it = []"
    using pl ci(4) it by (simp add: pending_of_def)
  note stop = wrapped_pull_stop [OF it pe]
  have c: "fst (wrapped_pull (pull_n ?L ?s1)) = Inl StopIteration"
    using stop by simp
  have d: "fetched (pull_n (Suc ?L) ?s1) = int ?L" "done_flag (pull_n (Suc ?L) ?s1)"
    unfolding pull_n_Suc_end using stop pl ci(2,4) by simp_all
  have e: "fst (DataLoaderIterDataFetcher_fetching_function (pull_n (Suc ?L) ?s1)) =
           Inl StopIteration"
    using d(2) by (simp add: DataLoaderIterDataFetcher_fetching_function_def)
  show ?thesis
    using ci(1) a b c d e by blast
qed

theorem caller_driven_counts_pulls_witness:
  "case example_caller_driven of
     None \<Rightarrow> False
   | Some s \<Rightarrow>
       fst (fetcher_iter s) = Inr () \<and>
       fst (DataLoaderIterDataFetcher_fetching_function (pull_n 2 (snd (fetcher_iter s)))) =
         Inr (2, (StepFuncDataLoaderIter, False)) \<and>
       fst (wrapped_pull (pull_n 2 (snd (fetcher_iter s)))) = Inr 30 \<and>
       fst (wrapped_pull (pull_n 3 (snd (fetcher_iter s)))) = Inl StopIteration \<and>
       fetched (pull_n 4 (snd (fetcher_iter s))) = 3 \<and>
       done_flag (pull_n 4 (snd (fetcher_iter s))) \<and>
       fst (DataLoaderIterDataFetcher_fetching_function (pull_n 4 (snd (fetcher_iter s)))) =
         Inl StopIteration"
proof -
  obtain s where s: "example_caller_driven = Some s" "cls s = DataLoaderIterDataFetcher"
    "dataloader_src s = Some example_source"
    using example_caller_driven_props by auto
  have len: "length (content example_source) = 3"
    by (simp add: example_source_def)
  have third: "fst (content example_source ! 2) = 30"
    by (simp add: example_source_def)
  have four: "Suc 3 = 4" by simp
  show ?thesis
    unfolding s(1)
    using caller_driven_counts_pulls [OF s(2,3), of 2, unfolded len four] third
    by simp
qed

text \<open>
  C7. The constructor of the base class raises \<open>MisconfigurationException\<close> exactly
  when the depth is below 0, and the constructors of \<open>DataFetcher\<close> and
  \<open>InterBatchParallelDataFetcher\<close> exactly when it is below 1; for every other depth
  they return the new object.
\<close>

theorem constructors_check_the_depth:
  "(AbstractDataFetcher_init c ft d = (Inl MisconfigurationException :: error + 'a fetcher))
     = (d < 0) \<and>
   (\<exists>s :: 'a fetcher. AbstractDataFetcher_init c ft d = Inr s) = (0 \<le> d) \<and>
   (DataFetcher_init ft d sod = (Inl MisconfigurationException :: error + 'a fetcher))
     = (d < 1) \<and>
   (\<exists>s :: 'a fetcher. DataFetcher_init ft d sod = Inr s) = (1 \<le> d) \<and>
   (InterBatchParallelDataFetcher_init ft d sod =
      (Inl MisconfigurationException :: error + 'a fetcher)) = (d < 1) \<and>
   (\<exists>s :: 'a fetcher. InterBatchParallelDataFetcher_init ft d sod = Inr s) = (1 \<le> d)"
  by (auto simp: AbstractDataFetcher_init_def DataFetcher_init_def DataFetcher_init_as_def
        InterBatchParallelDataFetcher_init_def)

text \<open>
  C8, as the claim states it: \<open>teardown\<close> raises nothing at any point of the lifecycle,
  also before \<open>setup\<close>. On a \<open>DataFetcher\<close> as the constructor returns it, \<open>teardown\<close>
  raises \<open>MisconfigurationException\<close>.
\<close>

theorem teardown_before_setup_raises:
  "case (DataFetcher_init False 1 True :: error + nat fetcher) of
     Inl e \<Rightarrow> False
   | Inr s \<Rightarrow> fst (teardown s) = Inl MisconfigurationException"
  by (simp add: DataFetcher_init_def DataFetcher_init_as_def AbstractDataFetcher_init_def
        teardown_def reset_def DataFetcher_reset_def AbstractDataFetcher_reset_def)

text \<open>
  C8, amended. On a fetcher that has been set up, in any state (between passes or with
  batches in the buffer), \<open>teardown\<close> raises nothing: it sets \<open>fetched\<close> to 0 and \<open>done\<close>
  to false, empties the batch buffer of a \<open>DataFetcher\<close> or overlap fetcher, sets
  \<open>dataloader_iter\<close> to \<open>None\<close>, waits on no event, asks a \<open>CombinedLoader\<close> to reset and a
  \<open>DataLoader\<close> to shut down its workers and reset its iterator, and calls
  \<open>_teardown_dataloader_get_iterators\<close>. On a fetcher that has not been set up it
  resets and then raises \<open>MisconfigurationException\<close>.
\<close>

theorem teardown_after_setup:
  "(dataloader_src s = Some src \<longrightarrow>
      fst (teardown s) = Inr () \<and>
      fetched (snd (teardown s)) = 0 \<and> \<not> done_flag (snd (teardown s)) \<and>
      (cls s \<noteq> DataLoaderIterDataFetcher \<longrightarrow> batches (snd (teardown s)) = []) \<and>
      dataloader_iter (snd (teardown s)) = None \<and>
      waited (snd (teardown s)) = waited s \<and>
      dataloader_src (snd (teardown s)) = Some src \<and>
      calls (snd (teardown s)) =
        calls s @ (if kind src = CombinedLoader then [CombinedLoader_reset] else []) @
        (if kind src = DataLoader then [Shutdown_workers_and_reset_iterator] else []) @
        [Teardown_dataloader_get_iterators]) \<and>
   (dataloader_src s = None \<longrightarrow> teardown s = (Inl MisconfigurationException, reset s))"
proof -
  have r: "dataloader_src (reset s) = dataloader_src s"
    by (rule reset_frame)
  have a: "teardown s = (Inl MisconfigurationException, reset s)" if "dataloader_src s = None"
    using that r by (simp add: teardown_def)
  have b: "fst (teardown s) = Inr () \<and>
      fetched (snd (teardown s)) = 0 \<and> \<not> done_flag (snd (teardown s)) \<and>
      (cls s \<noteq> DataLoaderIterDataFetcher \<longrightarrow> batches (snd (teardown s)) = []) \<and>
      dataloader_iter (snd (teardown s)) = None \<and>
      waited (snd (teardown s)) = waited s \<and>
      dataloader_src (snd (teardown s)) = Some src \<and>
      calls (snd (teardown s)) =
        calls s @ (if kind src = CombinedLoader then [CombinedLoader_reset] else []) @
        (if kind src = DataLoader then [Shutdown_workers_and_reset_iterator] else []) @
        [Teardown_dataloader_get_iterators]"
    if "dataloader_src s = Some src"
    using that reset_frame [of s]
    by (cases "kind src") (simp_all add: teardown_def Let_def)
  show ?thesis
    using a b by blast
qed

theorem teardown_after_setup_witness:
  "case example_mid_pass of
     None \<Rightarrow> False
   | Some s \<Rightarrow>
       batches s = [20, 30] \<and> fetched s = 3 \<and>
       fst (teardown s) = Inr () \<and> fetched (snd (teardown s)) = 0 \<and>
       \<not> done_flag (snd (teardown s)) \<and> batches (snd (teardown s)) = [] \<and>
       dataloader_iter (snd (teardown s)) = None \<and>
       calls (snd (teardown s)) = calls s @ [Teardown_dataloader_get_iterators]"
proof -
  obtain s0 where s0: "example_DataFetcher 2 = Some s0" "cls s0 = DataFetcher"
    "prefetch_batches s0 = 2" "dataloader_src s0 = Some example_source"
    using example_DataFetcher_props [of 2] by auto
  let ?s = "advance_n 1 (snd (fetcher_iter s0))"
  have mid: "example_mid_pass = Some ?s"
    by (simp add: example_mid_pass_def s0(1))
  have c: "cls s0 = DataFetcher \<or> cls s0 = InterBatchParallelDataFetcher \<and> events s0 = []"
    using s0(2) by simp
  have d: "1 \<le> prefetch_batches s0"
    using s0(3) by simp
  note v = advance_n_view [OF c s0(4) d, of 1]
  have st: "cls ?s = DataFetcher" "dataloader_src ?s = Some example_source"
    using v s0(2,4) by (simp_all add: static_def)
  have b: "batches ?s = [20, 30]" "fetched ?s = 3"
    using v s0(3) by (simp_all add: example_source_def)
  show ?thesis
    unfolding mid
    using teardown_after_setup [of ?s example_source] st b
    by (simp add: example_source_def)
qed

text \<open>
  C9. \<open>DataFetcher.reset\<close> sets \<open>fetched\<close> to 0, \<open>done\<close> to false and empties the batch
  buffer; it leaves \<open>events\<close> as it is, and it is the \<open>reset\<close> of the overlap fetcher.
  So when \<open>__iter__\<close> starts a new pass on an overlap fetcher, the events of the old
  pass stay at the front of the list, before the events of the prefetched batches: the
  list is then longer than the batch buffer by the number of old events.
\<close>

theorem reset_keeps_events:
  "fetched (DataFetcher_reset s) = 0 \<and> \<not> done_flag (DataFetcher_reset s) \<and>
   batches (DataFetcher_reset s) = [] \<and> events (DataFetcher_reset s) = events s \<and>
   (cls s = InterBatchParallelDataFetcher \<longrightarrow> reset s = DataFetcher_reset s) \<and>
   (cls s = InterBatchParallelDataFetcher \<and> dataloader_src s = Some src \<longrightarrow>
      take (length (events s)) (events (snd (fetcher_iter s))) = events s \<and>
      length (events (snd (fetcher_iter s))) =
        length (events s) + length (batches (snd (fetcher_iter s))))"
proof -
  have a: "fetched (DataFetcher_reset s) = 0 \<and> \<not> done_flag (DataFetcher_reset s) \<and>
           batches (DataFetcher_reset s) = [] \<and> events (DataFetcher_reset s) = events s"
    by (simp add: DataFetcher_reset_def AbstractDataFetcher_reset_def)
  have b: "reset s = DataFetcher_reset s" if "cls s = InterBatchParallelDataFetcher"
    using that by (simp add: reset_def)
  have c: "take (length (events s)) (events (snd (fetcher_iter s))) = events s \<and>
           length (events (snd (fetcher_iter s))) =
             length (events s) + length (batches (snd (fetcher_iter s)))"
    if o: "cls s = InterBatchParallelDataFetcher" and src: "dataloader_src s = Some src"
  proof -
    have c': "cls s = DataFetcher \<or> cls s = InterBatchParallelDataFetcher"
      using o by simp
    show ?thesis
      unfolding fetcher_iter_view(2,8) [OF c' src] using o by simp
  qed
  show ?thesis
    using a b c by blast
qed

theorem reset_keeps_events_witness:
  "case example_abandoned of
     None \<Rightarrow> False
   | Some s \<Rightarrow>
       cls s = InterBatchParallelDataFetcher \<and>
       map ev_id (events s) = [0, 1] \<and> batches s = [10, 20] \<and>
       events (reset s) = events s \<and> batches (reset s) = [] \<and> fetched (reset s) = 0 \<and>
       take 2 (events (snd (fetcher_iter s))) = events s \<and>
       length (events (snd (fetcher_iter s))) = 4 \<and>
       length (batches (snd (fetcher_iter s))) = 2"
proof -
  obtain s0 where s0: "example_overlap = Some s0" "cls s0 = InterBatchParallelDataFetcher"
    "prefetch_batches s0 = 2" "dataloader_src s0 = Some example_source"
    "events s0 = []" "events_created s0 = 0"
    using example_overlap_props by auto
  let ?s = "snd (fetcher_iter s0)"
  have ab: "example_abandoned = Some ?s"
    by (simp add: example_abandoned_def s0(1))
  have c0: "cls s0 = DataFetcher \<or> cls s0 = InterBatchParallelDataFetcher"
    using s0(2) by simp
  note v = fetcher_iter_view [OF c0 s0(4)]
  have st: "cls ?s = InterBatchParallelDataFetcher" "dataloader_src ?s = Some example_source"
    "prefetch_batches ?s = 2"
    using v(6) s0(2,3,4) by (simp_all add: static_def)
  have upt2: "[0 ..< 2] = [0, Suc 0]"
    by (simp add: upt_rec)
  have ev: "map ev_id (events ?s) = [0, 1]" "length (events ?s) = 2"
    unfolding v(8) using s0(2,3,5,6) by (simp_all add: example_source_def upt2 fresh_event_def)
  have ba: "batches ?s = [10, 20]"
    unfolding v(2) using s0(3) by (simp add: example_source_def)
  have c1: "cls ?s = DataFetcher \<or> cls ?s = InterBatchParallelDataFetcher"
    using st(1) by simp
  have b2: "length (batches (snd (fetcher_iter ?s))) = 2"
    unfolding fetcher_iter_view(2) [OF c1 st(2)] using st(3) by (simp add: example_source_def)
  show ?thesis
    unfolding ab
    using reset_keeps_events [of ?s example_source] st(1,2) ev ba b2
    by simp
qed







end
